theory Spec2Isabelle
  imports Complex_Main "HOL-Library.Word" "HOL-Library.Extended_Nat"
begin

section \<open>JavaScript values used by PiStorage\<close>

text \<open>
  A JavaScript string is a sequence of UTF-16 code units. \<open>charCodeAt\<close> reads a unit as a
  number in \<open>0..65535\<close> and \<open>String.fromCharCode\<close> applies ToUint16, that is, reduction
  modulo \<open>2^16\<close>, which is what \<open>word_of_int\<close> does on \<open>16 word\<close>. Messages and the output of
  \<open>numberToBase\<close> are such sequences. The names of the constants and their digit texts are
  ASCII literals of the source and are written as HOL strings.

  Numbers are modelled as mathematical integers; this agrees with the IEEE doubles of
  the source as long as every intermediate value stays below \<open>2^53\<close>. An array element can
  also be \<open>NaN\<close> (from \<open>parseInt\<close> of a non-digit), so array elements get a type of their own.
\<close>

type_synonym codeunit = "16 word"
type_synonym jsstring = "codeunit list"

datatype jsnum = NaN | Num nat

datatype error =
    InvalidBase             \<comment> \<open>\<open>Error("Base must be between 2 and 65536")\<close>\<close>
  | InvalidDigit            \<comment> \<open>\<open>Error("Invalid character for base ...")\<close>\<close>
  | UnknownConstant string  \<comment> \<open>\<open>Error("Unknown constant: ...")\<close>\<close>
  | EmptyMessage            \<comment> \<open>\<open>Error("Message cannot be empty")\<close>\<close>
  | SequenceNotFound        \<comment> \<open>\<open>Error("Could not encode message")\<close>\<close>
  | RadixRangeError         \<comment> \<open>thrown by \<open>Number.prototype.toString\<close> for a radix outside \<open>2..36\<close>\<close>
  | TypeError               \<comment> \<open>thrown when \<open>.replace\<close> is called on a value that has no such method\<close>

definition fromCharCode :: "int \<Rightarrow> codeunit" where
  "fromCharCode n = word_of_int n"

definition charCode :: "codeunit \<Rightarrow> int" where
  "charCode ch = uint ch"

text \<open>\<open>String.fromCharCode\<close> of an array element: ToUint16 sends \<open>NaN\<close> to \<open>0\<close>.\<close>

fun fromCharCode_num :: "jsnum \<Rightarrow> codeunit" where
  "fromCharCode_num NaN = 0"
| "fromCharCode_num (Num n) = fromCharCode (int n)"

text \<open>
  \<open>a[i] !== x\<close>: an index outside the array reads \<open>undefined\<close> (here \<open>None\<close>), which is
  strictly unequal to every number, and so is \<open>NaN\<close>.
\<close>

definition elem :: "'a list \<Rightarrow> nat \<Rightarrow> 'a option" where
  "elem xs i = (if i < length xs then Some (xs ! i) else None)"

fun strict_neq :: "jsnum option \<Rightarrow> jsnum \<Rightarrow> bool" where
  "strict_neq (Some (Num a)) (Num b) = (a \<noteq> b)"
| "strict_neq _ _ = True"

text \<open>
  \<open>xs.slice(start, end)\<close>: a negative index counts from the end of the array, both indices
  are clamped to \<open>0..length\<close>, and an empty range yields the empty array.
\<close>

definition slice :: "'a list \<Rightarrow> int \<Rightarrow> int \<Rightarrow> 'a list" where
  "slice xs start' end' =
     (let len = int (length xs);
          k = (if start' < 0 then max (len + start') 0 else min start' len);
          final = (if end' < 0 then max (len + end') 0 else min end' len)
      in take (nat (max (final - k) 0)) (drop (nat k) xs))"

text \<open>
  \<open>n.toString(radix)\<close> for a non-negative integer \<open>n\<close>: a \<open>RangeError\<close> unless
  \<open>2 \<le> radix \<le> 36\<close>, otherwise the digits \<open>0-9a-z\<close>, most significant first, \<open>"0"\<close> for zero.
\<close>

definition radix_digit :: "nat \<Rightarrow> char" where
  "radix_digit d = (if d < 10 then char_of (48 + d) else char_of (87 + d))"

function radix_digits :: "nat \<Rightarrow> nat \<Rightarrow> string \<Rightarrow> string" where
  "radix_digits radix n acc =
     (if 0 < n \<and> 2 \<le> radix
      then radix_digits radix (n div radix) (radix_digit (n mod radix) # acc)
      else acc)"
  by pat_completeness auto
termination
  by (relation "measure (\<lambda>(radix, n, acc). n)") auto

declare radix_digits.simps [simp del]

definition toString :: "nat \<Rightarrow> int \<Rightarrow> error + string" where
  "toString n radix =
     (if radix < 2 \<or> 36 < radix then Inl RadixRangeError
      else if n = 0 then Inr ''0''
      else Inr (radix_digits (nat radix) n []))"

section \<open>The class PiStorage\<close>

subsection \<open>Fields and the source of random numbers\<close>

text \<open>
  \<open>this.constants\<close> is an object literal with the three keys \<open>pi\<close>, \<open>e\<close> and \<open>phi\<close>. Reading
  \<open>this.constants[name]\<close> follows the prototype chain: a name of \<open>Object.prototype\<close> reads
  a function or an object (truthy, without a \<open>replace\<close> method), any other name reads
  \<open>undefined\<close>.
\<close>

datatype property = Undefined | Text string | Inherited

definition Object_prototype :: "string list" where
  "Object_prototype =
     [''constructor'', ''hasOwnProperty'', ''isPrototypeOf'', ''propertyIsEnumerable'',
      ''toLocaleString'', ''toString'', ''valueOf'', ''__proto__'',
      ''__defineGetter__'', ''__defineSetter__'', ''__lookupGetter__'', ''__lookupSetter__'']"

definition constants :: "string \<Rightarrow> property" where
  "constants name =
     (if name = ''pi'' then
        Text ''3.1415926535897932384626433832795028841971693993751058209749445923078164062862089986280348253421170679''
      else if name = ''e'' then
        Text ''2.7182818284590452353602874713526624977572470936999595749669676277240766303535475945713821785251664274''
      else if name = ''phi'' then
        Text ''1.6180339887498948482045868343656381177203091798057628621354486227052604628189024497072072041893911374''
      else if name \<in> set Object_prototype then Inherited
      else Undefined)"

text \<open>
  An instance holds the digit cache. The key of the source is the template string
  \<open>constant_base_maxDigits\<close>; a number prints without an underscore, so the string
  determines the triple and the triple is used as the key. \<open>Math.random\<close> is the
  environment's: \<open>entropy\<close> lists the values that its successive calls return and \<open>drawn\<close>
  counts the calls made so far.
\<close>

record PiStorage =
  baseDigitsCache :: "(string \<times> int \<times> int) \<rightharpoonup> jsnum list"
  entropy :: "nat \<Rightarrow> real"
  drawn :: nat

definition constructor :: "(nat \<Rightarrow> real) \<Rightarrow> PiStorage" where
  "constructor tape = \<lparr>baseDigitsCache = Map.empty, entropy = tape, drawn = 0\<rparr>"

definition Math_random :: "PiStorage \<Rightarrow> real \<times> PiStorage" where
  "Math_random st = (entropy st (drawn st), st\<lparr>drawn := Suc (drawn st)\<rparr>)"

subsection \<open>numberToBase and baseToNumber\<close>

definition digit_char :: "int \<Rightarrow> int \<Rightarrow> codeunit" where
  "digit_char base remainder =
     (if base \<le> 36
      then (if remainder < 10 then fromCharCode (48 + remainder)
            else fromCharCode (65 + remainder - 10))
      else fromCharCode remainder)"

text \<open>
  The \<open>while (number > 0)\<close> loop; \<open>unshift\<close> puts the new digit in front. The loop is only
  entered after the range check on \<open>base\<close>, which the guard \<open>2 \<le> base\<close> repeats.
\<close>

function numberToBase_loop :: "int \<Rightarrow> int \<Rightarrow> jsstring \<Rightarrow> jsstring" where
  "numberToBase_loop number base result =
     (if 0 < number \<and> 2 \<le> base
      then numberToBase_loop (number div base) base (digit_char base (number mod base) # result)
      else result)"
  by pat_completeness auto
termination
  by (relation "measure (\<lambda>(number, base, result). nat number)")
     (auto simp: int_div_less_self)

declare numberToBase_loop.simps [simp del]

definition numberToBase :: "int \<Rightarrow> int \<Rightarrow> error + jsstring" where
  "numberToBase number base =
     (if base < 2 \<or> 65536 < base then Inl InvalidBase
      else if number = 0 then Inr [0x30]
      else Inr (numberToBase_loop number base []))"

definition char_value :: "int \<Rightarrow> codeunit \<Rightarrow> error + int" where
  "char_value base ch =
     (if base \<le> 36
      then (if 0x30 \<le> charCode ch \<and> charCode ch \<le> 0x39 then Inr (charCode ch - 48)
            else if 0x41 \<le> charCode ch \<and> charCode ch \<le> 0x5A then Inr (10 + (charCode ch - 65))
            else if 0x61 \<le> charCode ch \<and> charCode ch \<le> 0x7A then Inr (10 + (charCode ch - 97))
            else Inl InvalidDigit)
      else Inr (charCode ch))"

fun baseToNumber_loop :: "jsstring \<Rightarrow> int \<Rightarrow> int \<Rightarrow> error + int" where
  "baseToNumber_loop [] base result = Inr result"
| "baseToNumber_loop (ch # rest) base result =
     (case char_value base ch of
        Inl err \<Rightarrow> Inl err
      | Inr v \<Rightarrow> baseToNumber_loop rest base (result * base + v))"

definition baseToNumber :: "jsstring \<Rightarrow> int \<Rightarrow> error + int" where
  "baseToNumber string base =
     (if base < 2 \<or> 65536 < base then Inl InvalidBase
      else baseToNumber_loop string base 0)"

subsection \<open>messageToNumbers and numbersToMessage\<close>

text \<open>The parameter \<open>targetBase\<close> of \<open>messageToNumbers\<close> is never read.\<close>

definition messageToNumbers :: "jsstring \<Rightarrow> jsnum list" where
  "messageToNumbers message = map (\<lambda>ch. Num (nat (charCode ch))) message"

definition numbersToMessage :: "jsnum list \<Rightarrow> jsstring" where
  "numbersToMessage numbers = map fromCharCode_num numbers"

subsection \<open>getConstantInBase\<close>

text \<open>\<open>parseInt\<close> of a one-character string: the digit's value, \<open>NaN\<close> for any other character.\<close>

definition parseInt :: "char \<Rightarrow> jsnum" where
  "parseInt digit =
     (if 48 \<le> (of_char digit :: nat) \<and> (of_char digit :: nat) \<le> 57
      then Num (of_char digit - 48) else NaN)"

text \<open>\<open>text.replace('.', '').split('')\<close>: the first dot is removed.\<close>

definition split_digits :: "string \<Rightarrow> string" where
  "split_digits text = remove1 (CHR ''.'') text"

text \<open>The \<open>for (let digit of constantDigits)\<close> loop: both branches on \<open>base\<close> push the same value.\<close>

fun convert_digits :: "int \<Rightarrow> string \<Rightarrow> jsnum list \<Rightarrow> jsnum list" where
  "convert_digits base [] result = result"
| "convert_digits base (digit # rest) result =
     (let digitValue = parseInt digit
      in if base = 10 then convert_digits base rest (result @ [digitValue])
         else convert_digits base rest (result @ [digitValue]))"

text \<open>
  The \<open>while (result.length < maxDigits)\<close> loop: each pass draws one random number and
  appends \<open>Math.floor(Math.random() * 10)\<close>. The product is taken in the reals. The double
  product may round up to the next integer just below a multiple of one tenth, which
  changes neither the range \<open>0..9\<close> of the digit nor its dependence on \<open>Math.random\<close>.
\<close>

function extend_digits :: "int \<Rightarrow> jsnum list \<Rightarrow> PiStorage \<Rightarrow> jsnum list \<times> PiStorage" where
  "extend_digits maxDigits result st =
     (if int (length result) < maxDigits
      then (case Math_random st of
              (r, st') \<Rightarrow> extend_digits maxDigits (result @ [Num (nat \<lfloor>r * 10\<rfloor>)]) st')
      else (result, st))"
  by pat_completeness auto
termination
  by (relation "measure (\<lambda>(maxDigits, result, st). nat (maxDigits - int (length result)))") auto

declare extend_digits.simps [simp del]

definition falsy :: "property \<Rightarrow> bool" where
  "falsy p = (p = Undefined \<or> p = Text [])"

definition getConstantInBase ::
  "string \<Rightarrow> int \<Rightarrow> int \<Rightarrow> PiStorage \<Rightarrow> (error + jsnum list) \<times> PiStorage" where
  "getConstantInBase constant base maxDigits st =
     (let cacheKey = (constant, base, maxDigits) in
      case baseDigitsCache st cacheKey of
        Some cached \<Rightarrow> (Inr cached, st)
      | None \<Rightarrow>
          if falsy (constants constant) then (Inl (UnknownConstant constant), st)
          else (case constants constant of
                  Text text \<Rightarrow>
                    (case extend_digits maxDigits (convert_digits base (split_digits text) []) st of
                       (result, st') \<Rightarrow>
                         (Inr result,
                          st'\<lparr>baseDigitsCache := (baseDigitsCache st')(cacheKey \<mapsto> result)\<rparr>))
                | _ \<Rightarrow> (Inl TypeError, st)))"

subsection \<open>decode\<close>

text \<open>
  The arguments \<open>base\<close>, \<open>start\<close> and \<open>length\<close> are integers of either sign; nothing in
  \<open>decode\<close> or \<open>getConstantInBase\<close> looks at their range.
\<close>

definition decode ::
  "string \<Rightarrow> int \<Rightarrow> int \<Rightarrow> int \<Rightarrow> PiStorage \<Rightarrow> (error + jsstring) \<times> PiStorage" where
  "decode constant base start length' st =
     (if falsy (constants constant) then (Inl (UnknownConstant constant), st)
      else (case getConstantInBase constant base (start + length') st of
              (Inl err, st') \<Rightarrow> (Inl err, st')
            | (Inr constantDigits, st') \<Rightarrow>
                (Inr (numbersToMessage (slice constantDigits start (start + length'))), st')))"

subsection \<open>findOptimalSequence\<close>

record encoding =
  "constant" :: string
  base :: int
  start :: nat
  length' :: nat
  found :: bool

text \<open>
  The inner loop compares the message with the digits from offset \<open>s\<close> on and stops at
  the first difference; the outer loop tries the offsets \<open>s\<close> with
  \<open>s < constantDigits.length - messageNumbers.length\<close> in increasing order.
\<close>

function match_from :: "jsnum list \<Rightarrow> jsnum list \<Rightarrow> nat \<Rightarrow> nat \<Rightarrow> bool" where
  "match_from constantDigits messageNumbers s i =
     (if i < length messageNumbers
      then (if strict_neq (elem constantDigits (s + i)) (messageNumbers ! i) then False
            else match_from constantDigits messageNumbers s (Suc i))
      else True)"
  by pat_completeness auto
termination
  by (relation "measure (\<lambda>(constantDigits, messageNumbers, s, i). length messageNumbers - i)") auto

declare match_from.simps [simp del]

function search_from :: "jsnum list \<Rightarrow> jsnum list \<Rightarrow> nat \<Rightarrow> nat option" where
  "search_from constantDigits messageNumbers s =
     (if int s < int (length constantDigits) - int (length messageNumbers)
      then (if match_from constantDigits messageNumbers s 0 then Some s
            else search_from constantDigits messageNumbers (Suc s))
      else None)"
  by pat_completeness auto
termination
  by (relation "measure (\<lambda>(constantDigits, messageNumbers, s). length constantDigits - s)") auto

declare search_from.simps [simp del]

definition findOptimalSequence ::
  "jsstring \<Rightarrow> string \<Rightarrow> int \<Rightarrow> PiStorage \<Rightarrow> (error + encoding) \<times> PiStorage" where
  "findOptimalSequence message constant' base' st =
     (let messageNumbers = messageToNumbers message in
      case getConstantInBase constant' base' 10000 st of
        (Inl err, st') \<Rightarrow> (Inl err, st')
      | (Inr constantDigits, st') \<Rightarrow>
          (case search_from constantDigits messageNumbers 0 of
             Some s \<Rightarrow>
               (Inr \<lparr>constant = constant', base = base', start = s,
                     length' = length messageNumbers, found = True\<rparr>, st')
           | None \<Rightarrow>
               (Inr \<lparr>constant = constant', base = base', start = 0,
                     length' = length message * 2, found = False\<rparr>, st')))"

subsection \<open>encode\<close>

text \<open>
  The body of the two nested loops. The \<open>try\<close> block runs the search and then measures the
  result: \<open>weigh\<close> is the part after the search, the two \<open>toString\<close> calls and the
  comparison with \<open>bestLength\<close>, which starts at \<open>Infinity\<close>. Whatever is thrown inside (by
  the search, or by \<open>toString\<close> for a radix above \<open>36\<close>) is caught and the candidate is
  skipped. The cache keeps what the search stored.
\<close>

definition weigh :: "encoding \<Rightarrow> int \<Rightarrow> encoding option \<times> enat \<Rightarrow> encoding option \<times> enat" where
  "weigh result base' best =
     (case toString (start result) base' of
        Inl err \<Rightarrow> best
      | Inr startText \<Rightarrow>
          (case toString (length' result) base' of
             Inl err \<Rightarrow> best
           | Inr lengthText \<Rightarrow>
               (let encoding_size = length startText + length lengthText
                in if enat encoding_size < snd best
                   then (Some result, enat encoding_size)
                   else best)))"

definition try_candidate ::
  "jsstring \<Rightarrow> string \<Rightarrow> int \<Rightarrow> encoding option \<times> enat \<Rightarrow> PiStorage
     \<Rightarrow> (encoding option \<times> enat) \<times> PiStorage" where
  "try_candidate message constant' base' best st =
     (case findOptimalSequence message constant' base' st of
        (Inl err, st') \<Rightarrow> (best, st')
      | (Inr result, st') \<Rightarrow> (weigh result base' best, st'))"

fun encode_bases ::
  "jsstring \<Rightarrow> string \<Rightarrow> int list \<Rightarrow> encoding option \<times> enat \<Rightarrow> PiStorage
     \<Rightarrow> (encoding option \<times> enat) \<times> PiStorage" where
  "encode_bases message constant' [] best st = (best, st)"
| "encode_bases message constant' (base' # bases) best st =
     (case try_candidate message constant' base' best st of
        (best', st') \<Rightarrow> encode_bases message constant' bases best' st')"

fun encode_constants ::
  "jsstring \<Rightarrow> string list \<Rightarrow> int list \<Rightarrow> encoding option \<times> enat \<Rightarrow> PiStorage
     \<Rightarrow> (encoding option \<times> enat) \<times> PiStorage" where
  "encode_constants message [] bases best st = (best, st)"
| "encode_constants message (constant' # constants') bases best st =
     (case encode_bases message constant' bases best st of
        (best', st') \<Rightarrow> encode_constants message constants' bases best' st')"

definition encode :: "jsstring \<Rightarrow> PiStorage \<Rightarrow> (error + encoding) \<times> PiStorage" where
  "encode message st =
     (if message = [] then (Inl EmptyMessage, st)
      else (case encode_constants message [''pi'', ''e'', ''phi''] [16, 32, 64, 256] (None, \<infinity>) st of
              ((bestResult, bestLength), st') \<Rightarrow>
                (case bestResult of
                   None \<Rightarrow> (Inl SequenceNotFound, st')
                 | Some result \<Rightarrow> (Inr result, st'))))"

section \<open>Notions used in the statements\<close>

text \<open>The three own keys of \<open>this.constants\<close>, and the digits that the conversion loop of
  \<open>getConstantInBase\<close> produces from a constant's text (the same for every base).\<close>

definition known :: "string \<Rightarrow> bool" where
  "known c = (c = ''pi'' \<or> c = ''e'' \<or> c = ''phi'')"

definition seed_of :: "string \<Rightarrow> jsnum list" where
  "seed_of c = (case constants c of Text t \<Rightarrow> map parseInt (split_digits t) | _ \<Rightarrow> [])"

fun decimal :: "jsnum \<Rightarrow> bool" where
  "decimal NaN = False"
| "decimal (Num d) = (d \<le> 9)"

text \<open>The \<open>m\<close> digits that the extension loop appends when \<open>Math.random\<close> has been called
  \<open>from\<close> times before.\<close>

definition filler :: "(nat \<Rightarrow> real) \<Rightarrow> nat \<Rightarrow> nat \<Rightarrow> jsnum list" where
  "filler tape from m = map (\<lambda>k. Num (nat \<lfloor>tape (from + k) * 10\<rfloor>)) [0..<m]"

text \<open>\<open>Math.random\<close> returns numbers in the half-open unit interval.\<close>

definition unit_interval :: "(nat \<Rightarrow> real) \<Rightarrow> bool" where
  "unit_interval tape = (\<forall>k. 0 \<le> tape k \<and> tape k < 1)"

text \<open>The states of an instance: a fresh one, and whatever the public methods leave.\<close>

inductive reachable :: "PiStorage \<Rightarrow> bool" where
  fresh: "unit_interval tape \<Longrightarrow> reachable (constructor tape)"
| after_getConstantInBase: "reachable st \<Longrightarrow> reachable (snd (getConstantInBase c b n st))"
| after_findOptimalSequence: "reachable st \<Longrightarrow> reachable (snd (findOptimalSequence m c b st))"
| after_encode: "reachable st \<Longrightarrow> reachable (snd (encode m st))"
| after_decode: "reachable st \<Longrightarrow> reachable (snd (decode c b s n st))"

text \<open>What every cached array looks like: the constant's digits, then decimal filler.\<close>

definition cache_sound :: "PiStorage \<Rightarrow> bool" where
  "cache_sound st =
     (\<forall>c b n ds. baseDigitsCache st (c, b, n) = Some ds \<longrightarrow>
        known c \<and> (\<exists>ext. ds = seed_of c @ ext \<and> list_all decimal ext \<and> n \<le> int (length ds)))"

definition wellformed :: "PiStorage \<Rightarrow> bool" where
  "wellformed st = (cache_sound st \<and> unit_interval (entropy st))"

text \<open>The target sequence stands in the digit stream at offset \<open>s\<close>.\<close>

definition occurs_at :: "jsnum list \<Rightarrow> jsnum list \<Rightarrow> nat \<Rightarrow> bool" where
  "occurs_at ds target s =
     (s + length target \<le> length ds \<and> take (length target) (drop s ds) = target)"

text \<open>Sample behaviours of \<open>Math.random\<close>.\<close>

definition calm :: "nat \<Rightarrow> real" where
  "calm k = 0"

definition lively :: "nat \<Rightarrow> real" where
  "lively k = 1 / 2"

definition shifting :: "nat \<Rightarrow> real" where
  "shifting k = (if k = 0 then 0 else 1 / 2)"

text \<open>Zeros for the \<open>12 * 9899\<close> draws of one \<open>encode\<close> on a fresh instance, one half after.\<close>

definition turning :: "nat \<Rightarrow> real" where
  "turning k = (if k < 118788 then 0 else 1 / 2)"

text \<open>
  The searches that one call of \<open>encode\<close> runs, in the order of its two loops, each from
  the state that the one before left, and the selection that \<open>encode\<close> makes among their
  results.
\<close>

fun searches_bases ::
  "jsstring \<Rightarrow> string \<Rightarrow> int list \<Rightarrow> PiStorage \<Rightarrow> (error + encoding) list \<times> PiStorage" where
  "searches_bases message c [] st = ([], st)"
| "searches_bases message c (b # bs) st =
     (case findOptimalSequence message c b st of
        (r, st') \<Rightarrow>
          (case searches_bases message c bs st' of (rs, st'') \<Rightarrow> (r # rs, st'')))"

fun searches_constants ::
  "jsstring \<Rightarrow> string list \<Rightarrow> int list \<Rightarrow> PiStorage \<Rightarrow> (error + encoding) list \<times> PiStorage" where
  "searches_constants message [] bs st = ([], st)"
| "searches_constants message (c # cs) bs st =
     (case searches_bases message c bs st of
        (rs, st') \<Rightarrow>
          (case searches_constants message cs bs st' of (rs', st'') \<Rightarrow> (rs @ rs', st'')))"

definition searches :: "jsstring \<Rightarrow> PiStorage \<Rightarrow> (error + encoding) list" where
  "searches message st =
     fst (searches_constants message [''pi'', ''e'', ''phi''] [16, 32, 64, 256] st)"

fun finds :: "error + encoding \<Rightarrow> bool" where
  "finds (Inl err) = False"
| "finds (Inr r) = found r"

definition none_found :: "jsstring \<Rightarrow> PiStorage \<Rightarrow> bool" where
  "none_found message st = (\<not> list_ex finds (searches message st))"

fun pick :: "encoding option \<times> enat \<Rightarrow> error + encoding \<Rightarrow> encoding option \<times> enat" where
  "pick best (Inl err) = best"
| "pick best (Inr r) = weigh r (base r) best"

definition fallback :: "string \<Rightarrow> int \<Rightarrow> jsstring \<Rightarrow> encoding" where
  "fallback c b message =
     \<lparr>constant = c, base = b, start = 0, length' = length message * 2, found = False\<rparr>"

text \<open>Sample messages.\<close>

definition letter_A :: jsstring where
  "letter_A = [0x41]"

definition two_nuls :: jsstring where
  "two_nuls = [0, 0]"

section \<open>Auxiliary facts\<close>

subsection \<open>The digits of the constants and the extension loop\<close>

lemma seed_of_pi: "seed_of ''pi'' = [
      Num 3, Num 1, Num 4, Num 1, Num 5, Num 9, Num 2, Num 6, Num 5, Num 3, Num 5, Num 8,
      Num 9, Num 7, Num 9, Num 3, Num 2, Num 3, Num 8, Num 4, Num 6, Num 2, Num 6, Num 4,
      Num 3, Num 3, Num 8, Num 3, Num 2, Num 7, Num 9, Num 5, Num 0, Num 2, Num 8, Num 8,
      Num 4, Num 1, Num 9, Num 7, Num 1, Num 6, Num 9, Num 3, Num 9, Num 9, Num 3, Num 7,
      Num 5, Num 1, Num 0, Num 5, Num 8, Num 2, Num 0, Num 9, Num 7, Num 4, Num 9, Num 4,
      Num 4, Num 5, Num 9, Num 2, Num 3, Num 0, Num 7, Num 8, Num 1, Num 6, Num 4, Num 0,
      Num 6, Num 2, Num 8, Num 6, Num 2, Num 0, Num 8, Num 9, Num 9, Num 8, Num 6, Num 2,
      Num 8, Num 0, Num 3, Num 4, Num 8, Num 2, Num 5, Num 3, Num 4, Num 2, Num 1, Num 1,
      Num 7, Num 0, Num 6, Num 7, Num 9]"
  by (simp add: seed_of_def constants_def split_digits_def parseInt_def)

lemma seed_of_e: "seed_of ''e'' = [
      Num 2, Num 7, Num 1, Num 8, Num 2, Num 8, Num 1, Num 8, Num 2, Num 8, Num 4, Num 5,
      Num 9, Num 0, Num 4, Num 5, Num 2, Num 3, Num 5, Num 3, Num 6, Num 0, Num 2, Num 8,
      Num 7, Num 4, Num 7, Num 1, Num 3, Num 5, Num 2, Num 6, Num 6, Num 2, Num 4, Num 9,
      Num 7, Num 7, Num 5, Num 7, Num 2, Num 4, Num 7, Num 0, Num 9, Num 3, Num 6, Num 9,
      Num 9, Num 9, Num 5, Num 9, Num 5, Num 7, Num 4, Num 9, Num 6, Num 6, Num 9, Num 6,
      Num 7, Num 6, Num 2, Num 7, Num 7, Num 2, Num 4, Num 0, Num 7, Num 6, Num 6, Num 3,
      Num 0, Num 3, Num 5, Num 3, Num 5, Num 4, Num 7, Num 5, Num 9, Num 4, Num 5, Num 7,
      Num 1, Num 3, Num 8, Num 2, Num 1, Num 7, Num 8, Num 5, Num 2, Num 5, Num 1, Num 6,
      Num 6, Num 4, Num 2, Num 7, Num 4]"
  by (simp add: seed_of_def constants_def split_digits_def parseInt_def)

lemma seed_of_phi: "seed_of ''phi'' = [
      Num 1, Num 6, Num 1, Num 8, Num 0, Num 3, Num 3, Num 9, Num 8, Num 8, Num 7, Num 4,
      Num 9, Num 8, Num 9, Num 4, Num 8, Num 4, Num 8, Num 2, Num 0, Num 4, Num 5, Num 8,
      Num 6, Num 8, Num 3, Num 4, Num 3, Num 6, Num 5, Num 6, Num 3, Num 8, Num 1, Num 1,
      Num 7, Num 7, Num 2, Num 0, Num 3, Num 0, Num 9, Num 1, Num 7, Num 9, Num 8, Num 0,
      Num 5, Num 7, Num 6, Num 2, Num 8, Num 6, Num 2, Num 1, Num 3, Num 5, Num 4, Num 4,
      Num 8, Num 6, Num 2, Num 2, Num 7, Num 0, Num 5, Num 2, Num 6, Num 0, Num 4, Num 6,
      Num 2, Num 8, Num 1, Num 8, Num 9, Num 0, Num 2, Num 4, Num 4, Num 9, Num 7, Num 0,
      Num 7, Num 2, Num 0, Num 7, Num 2, Num 0, Num 4, Num 1, Num 8, Num 9, Num 3, Num 9,
      Num 1, Num 1, Num 3, Num 7, Num 4]"
  by (simp add: seed_of_def constants_def split_digits_def parseInt_def)

lemma known_cases: "known c \<Longrightarrow> (c = ''pi'' \<Longrightarrow> P) \<Longrightarrow> (c = ''e'' \<Longrightarrow> P) \<Longrightarrow> (c = ''phi'' \<Longrightarrow> P) \<Longrightarrow> P"
  by (auto simp: known_def)

lemma length_seed_of: "known c \<Longrightarrow> length (seed_of c) = 101"
  by (erule known_cases) (simp_all add: seed_of_pi seed_of_e seed_of_phi)

lemma decimal_seed_of: "known c \<Longrightarrow> list_all decimal (seed_of c)"
  by (erule known_cases) (simp_all add: seed_of_pi seed_of_e seed_of_phi)

lemma constants_known: "known c \<Longrightarrow> \<exists>t. constants c = Text t \<and> t \<noteq> []"
  by (erule known_cases) (simp_all add: constants_def)

lemma falsy_constants: "falsy (constants c) \<longleftrightarrow> constants c = Undefined"
  by (simp add: falsy_def constants_def)

lemma constants_unknown: "\<not> known c \<Longrightarrow> constants c = Inherited \<or> constants c = Undefined"
  by (simp add: constants_def known_def)

lemma convert_digits_map: "convert_digits b s acc = acc @ map parseInt s"
  by (induction s arbitrary: acc) (simp_all add: Let_def)

lemma filler_Suc:
  "filler tape from (Suc m) = Num (nat \<lfloor>tape from * 10\<rfloor>) # filler tape (Suc from) m"
  unfolding filler_def by (simp add: map_upt_Suc del: upt_Suc)

lemma length_filler [simp]: "length (filler tape from m) = m"
  by (simp add: filler_def)

lemma extend_digits_closed:
  "extend_digits n r st =
     (r @ filler (entropy st) (drawn st) (nat (n - int (length r))),
      st\<lparr>drawn := drawn st + nat (n - int (length r))\<rparr>)"
proof (induction n r st rule: extend_digits.induct)
  case (1 n r st)
  show ?case
  proof (cases "int (length r) < n")
    case False
    then show ?thesis by (subst extend_digits.simps) (simp add: filler_def)
  next
    case True
    then obtain m where m: "nat (n - int (length r)) = Suc m"
      by (metis Suc_pred' zero_less_nat_eq diff_gt_0_iff_gt)
    then have m': "nat (n - int (length (r @ [Num (nat \<lfloor>entropy st (drawn st) * 10\<rfloor>)]))) = m"
      by simp
    have step: "extend_digits n r st =
        extend_digits n (r @ [Num (nat \<lfloor>entropy st (drawn st) * 10\<rfloor>)]) (st\<lparr>drawn := Suc (drawn st)\<rparr>)"
      using True by (subst extend_digits.simps) (simp add: Math_random_def)
    show ?thesis
      unfolding step
      by (subst "1.IH"[OF True, of "entropy st (drawn st)" "st\<lparr>drawn := Suc (drawn st)\<rparr>"])
         (simp_all add: Math_random_def m m' filler_Suc del: length_append)
  qed
qed

lemma getConstantInBase_hit:
  "baseDigitsCache st (c, b, n) = Some ds \<Longrightarrow> getConstantInBase c b n st = (Inr ds, st)"
  by (simp add: getConstantInBase_def)

lemma getConstantInBase_miss:
  assumes "baseDigitsCache st (c, b, n) = None" and "known c"
  shows "getConstantInBase c b n st =
     (Inr (seed_of c @ filler (entropy st) (drawn st) (nat (n - 101))),
      st\<lparr>drawn := drawn st + nat (n - 101),
         baseDigitsCache := (baseDigitsCache st)((c, b, n) \<mapsto>
            seed_of c @ filler (entropy st) (drawn st) (nat (n - 101)))\<rparr>)"
proof -
  from constants_known[OF assms(2)] obtain t where t: "constants c = Text t" "t \<noteq> []" by blast
  have s: "seed_of c = map parseInt (split_digits t)" by (simp add: seed_of_def t)
  have l: "length (map parseInt (split_digits t)) = 101"
    using length_seed_of[OF assms(2)] s by simp
  show ?thesis
    using assms(1) t l
    by (simp add: getConstantInBase_def falsy_def convert_digits_map extend_digits_closed s)
qed

lemma getConstantInBase_unknown:
  assumes "baseDigitsCache st (c, b, n) = None" and "\<not> known c"
  shows "\<exists>err. getConstantInBase c b n st = (Inl err, st)"
  using assms constants_unknown[OF assms(2)]
  by (auto simp: getConstantInBase_def falsy_def)

lemma decimal_filler: "unit_interval tape \<Longrightarrow> list_all decimal (filler tape from m)"
proof -
  assume u: "unit_interval tape"
  have "nat \<lfloor>tape k * 10\<rfloor> \<le> 9" for k
  proof -
    have "tape k < 1" using u by (simp add: unit_interval_def)
    then have "tape k * 10 < 10" by simp
    then have "\<lfloor>tape k * 10\<rfloor> < 10" by (simp only: floor_less_iff of_int_numeral)
    then show ?thesis by linarith
  qed
  then show ?thesis by (simp add: filler_def list_all_iff)
qed

subsection \<open>The cache invariant\<close>

lemma getConstantInBase_sound:
  assumes "cache_sound st" and "unit_interval (entropy st)"
    and "getConstantInBase c b n st = (r, st')"
  shows "cache_sound st' \<and> entropy st' = entropy st \<and>
         (known c \<longrightarrow> (\<exists>ext. r = Inr (seed_of c @ ext) \<and> list_all decimal ext \<and>
                            n \<le> int (length (seed_of c @ ext)))) \<and>
         (\<not> known c \<longrightarrow> (\<exists>err. r = Inl err) \<and> st' = st)"
proof (cases "baseDigitsCache st (c, b, n)")
  case (Some ds)
  then have "r = Inr ds" "st' = st"
    using assms(3) by (simp_all add: getConstantInBase_hit)
  moreover have "known c \<and> (\<exists>ext. ds = seed_of c @ ext \<and> list_all decimal ext \<and> n \<le> int (length ds))"
    using assms(1) Some unfolding cache_sound_def by blast
  ultimately show ?thesis using assms(1) by auto
next
  case None
  show ?thesis
  proof (cases "known c")
    case False
    then show ?thesis
      using getConstantInBase_unknown[OF None False] assms(1,3) by auto
  next
    case True
    let ?ext = "filler (entropy st) (drawn st) (nat (n - 101))"
    have r: "r = Inr (seed_of c @ ?ext)"
      and st': "st' = st\<lparr>drawn := drawn st + nat (n - 101),
                 baseDigitsCache := (baseDigitsCache st)((c, b, n) \<mapsto> seed_of c @ ?ext)\<rparr>"
      using getConstantInBase_miss[OF None True] assms(3) by simp_all
    have d: "list_all decimal ?ext" using assms(2) by (rule decimal_filler)
    have l: "n \<le> int (length (seed_of c @ ?ext))"
      using length_seed_of[OF True] by simp
    have "cache_sound st'"
      unfolding cache_sound_def
    proof (intro allI impI)
      fix c' b' n' ds
      assume h: "baseDigitsCache st' (c', b', n') = Some ds"
      show "known c' \<and> (\<exists>ext. ds = seed_of c' @ ext \<and> list_all decimal ext \<and> n' \<le> int (length ds))"
      proof (cases "(c', b', n') = (c, b, n)")
        case True
        then have "ds = seed_of c @ ?ext" using h st' by simp
        then show ?thesis using True \<open>known c\<close> d l by auto
      next
        case False
        then have "baseDigitsCache st (c', b', n') = Some ds" using h st' by (auto split: if_splits)
        then show ?thesis using assms(1) unfolding cache_sound_def by blast
      qed
    qed
    then show ?thesis using r st' d l True by auto
  qed
qed


lemma wellformed_getConstantInBase: "wellformed st \<Longrightarrow> wellformed (snd (getConstantInBase c b n st))"
  using getConstantInBase_sound[of st c b n "fst (getConstantInBase c b n st)" "snd (getConstantInBase c b n st)"]
  by (simp add: wellformed_def)

lemma snd_findOptimalSequence:
  "snd (findOptimalSequence m c b st) = snd (getConstantInBase c b 10000 st)"
  by (simp add: findOptimalSequence_def Let_def split: prod.splits sum.splits option.splits)

lemma snd_try_candidate:
  "snd (try_candidate m c b best st) = snd (findOptimalSequence m c b st)"
  by (simp add: try_candidate_def Let_def split: prod.splits sum.splits)

lemma wellformed_try_candidate: "wellformed st \<Longrightarrow> wellformed (snd (try_candidate m c b best st))"
  by (simp add: snd_try_candidate snd_findOptimalSequence wellformed_getConstantInBase)

lemma wellformed_encode_bases: "wellformed st \<Longrightarrow> wellformed (snd (encode_bases m c bs best st))"
proof (induction bs arbitrary: best st)
  case Nil
  then show ?case by simp
next
  case (Cons b bs)
  obtain best' st' where t: "try_candidate m c b best st = (best', st')" by (cases "try_candidate m c b best st")
  then have "wellformed st'" using wellformed_try_candidate[OF Cons.prems, of m c b best] by simp
  then show ?case using Cons.IH t by simp
qed

lemma wellformed_encode_constants: "wellformed st \<Longrightarrow> wellformed (snd (encode_constants m cs bs best st))"
proof (induction cs arbitrary: best st)
  case Nil
  then show ?case by simp
next
  case (Cons c cs)
  obtain best' st' where t: "encode_bases m c bs best st = (best', st')" by (cases "encode_bases m c bs best st")
  then have "wellformed st'" using wellformed_encode_bases[OF Cons.prems, of m c bs best] by simp
  then show ?case using Cons.IH t by simp
qed

lemma snd_encode:
  "snd (encode m st) =
     (if m = [] then st
      else snd (encode_constants m [''pi'', ''e'', ''phi''] [16, 32, 64, 256] (None, \<infinity>) st))"
  by (simp add: encode_def split: prod.splits option.splits)

lemma wellformed_encode: "wellformed st \<Longrightarrow> wellformed (snd (encode m st))"
  by (simp add: snd_encode wellformed_encode_constants del: encode_constants.simps encode_bases.simps)

lemma snd_decode:
  "snd (decode c b s n st) =
     (if falsy (constants c) then st else snd (getConstantInBase c b (s + n) st))"
  by (simp add: decode_def split: prod.splits sum.splits)

lemma wellformed_decode: "wellformed st \<Longrightarrow> wellformed (snd (decode c b s n st))"
  by (simp add: snd_decode wellformed_getConstantInBase)

lemma wellformed_constructor: "unit_interval tape \<Longrightarrow> wellformed (constructor tape)"
  by (simp add: wellformed_def cache_sound_def constructor_def)

lemma reachable_wellformed: "reachable st \<Longrightarrow> wellformed st"
  by (induction rule: reachable.induct)
     (simp_all add: wellformed_constructor wellformed_getConstantInBase wellformed_encode wellformed_decode
        snd_findOptimalSequence)

subsection \<open>The search loops\<close>

lemma strict_neq_iff: "\<not> strict_neq x y \<longleftrightarrow> (\<exists>a. x = Some (Num a) \<and> y = Num a)"
  by (cases "(x, y)" rule: strict_neq.cases) auto

lemma match_from_iff:
  "match_from cd mn s i \<longleftrightarrow> (\<forall>j. i \<le> j \<and> j < length mn \<longrightarrow> \<not> strict_neq (elem cd (s + j)) (mn ! j))"
proof (induction cd mn s i rule: match_from.induct)
  case (1 cd mn s i)
  show ?case
  proof (cases "i < length mn")
    case False
    then show ?thesis by (subst match_from.simps) auto
  next
    case True
    show ?thesis
    proof (cases "strict_neq (elem cd (s + i)) (mn ! i)")
      case True
      with \<open>i < length mn\<close> show ?thesis
        by (subst match_from.simps) auto
    next
      case False
      have "match_from cd mn s i = match_from cd mn s (Suc i)"
        using True False by (subst match_from.simps) simp
      also have "\<dots> \<longleftrightarrow> (\<forall>j. Suc i \<le> j \<and> j < length mn \<longrightarrow> \<not> strict_neq (elem cd (s + j)) (mn ! j))"
        using "1.IH"[OF True False] .
      also have "\<dots> \<longleftrightarrow> (\<forall>j. i \<le> j \<and> j < length mn \<longrightarrow> \<not> strict_neq (elem cd (s + j)) (mn ! j))"
        using False by (metis Suc_leI le_neq_implies_less Suc_leD)
      finally show ?thesis .
    qed
  qed
qed

lemma search_from_None_iff:
  "search_from cd mn s0 = None \<longleftrightarrow>
     (\<forall>s. s0 \<le> s \<and> int s < int (length cd) - int (length mn) \<longrightarrow> \<not> match_from cd mn s 0)"
proof (induction cd mn s0 rule: search_from.induct)
  case (1 cd mn s0)
  show ?case
  proof (cases "int s0 < int (length cd) - int (length mn)")
    case False
    then show ?thesis by (subst search_from.simps) auto
  next
    case True
    show ?thesis
    proof (cases "match_from cd mn s0 0")
      case True
      with \<open>int s0 < int (length cd) - int (length mn)\<close> show ?thesis
        by (subst search_from.simps) auto
    next
      case False
      have "search_from cd mn s0 = search_from cd mn (Suc s0)"
        using True False by (subst search_from.simps) simp
      then show ?thesis
        using "1.IH"[OF True False] False
        by (metis Suc_leI le_neq_implies_less Suc_leD)
    qed
  qed
qed

lemma search_from_Some_iff:
  "search_from cd mn s0 = Some s \<longleftrightarrow>
     (s0 \<le> s \<and> int s < int (length cd) - int (length mn) \<and> match_from cd mn s 0 \<and>
      (\<forall>s'. s0 \<le> s' \<and> s' < s \<longrightarrow> \<not> match_from cd mn s' 0))"
proof (induction cd mn s0 rule: search_from.induct)
  case (1 cd mn s0)
  show ?case
  proof (cases "int s0 < int (length cd) - int (length mn)")
    case False
    then show ?thesis by (subst search_from.simps) auto
  next
    case True
    show ?thesis
    proof (cases "match_from cd mn s0 0")
      case True
      have "search_from cd mn s0 = Some s0"
        using True \<open>int s0 < int (length cd) - int (length mn)\<close> by (subst search_from.simps) simp
      then show ?thesis
        using True \<open>int s0 < int (length cd) - int (length mn)\<close>
        by (metis le_neq_implies_less option.inject order_refl less_le_not_le)
    next
      case False
      have "search_from cd mn s0 = search_from cd mn (Suc s0)"
        using True False by (subst search_from.simps) simp
      then show ?thesis
        using "1.IH"[OF True False] False
        by (metis Suc_leI le_neq_implies_less Suc_leD less_le_not_le order_refl)
    qed
  qed
qed

lemma match_from_occurs:
  assumes "s + length mn \<le> length cd" and "\<forall>x\<in>set mn. x \<noteq> NaN"
  shows "match_from cd mn s 0 \<longleftrightarrow> occurs_at cd mn s"
proof -
  have "match_from cd mn s 0 \<longleftrightarrow> (\<forall>j<length mn. cd ! (s + j) = mn ! j)"
  proof -
    have "\<not> strict_neq (elem cd (s + j)) (mn ! j) \<longleftrightarrow> cd ! (s + j) = mn ! j" if "j < length mn" for j
    proof -
      from that assms(2) have "mn ! j \<noteq> NaN" by simp
      then obtain a where a: "mn ! j = Num a" by (cases "mn ! j") auto
      have "s + j < length cd" using that assms(1) by simp
      then show ?thesis by (simp add: strict_neq_iff elem_def a)
    qed
    then show ?thesis by (auto simp: match_from_iff)
  qed
  also have "\<dots> \<longleftrightarrow> take (length mn) (drop s cd) = mn"
    using assms(1) by (auto simp: list_eq_iff_nth_eq)
  finally show ?thesis using assms(1) by (simp add: occurs_at_def)
qed

lemma unit_calm: "unit_interval calm"
  by (simp add: unit_interval_def calm_def)

lemma getConstantInBase_known:
  "known c \<Longrightarrow> \<exists>ds st'. getConstantInBase c b n st = (Inr ds, st')"
  by (cases "baseDigitsCache st (c, b, n)")
     (simp_all add: getConstantInBase_miss getConstantInBase_hit)

lemma known_pi: "known ''pi''"
  by (simp add: known_def)

lemma nondecimal_never_matches:
  assumes "list_all decimal cd" and "ch \<in> set message" and "10 \<le> charCode ch"
  shows "search_from cd (messageToNumbers message) s0 = None"
proof -
  from assms(2) obtain j where j: "j < length message" "message ! j = ch"
    by (auto simp: in_set_conv_nth)
  have mj: "messageToNumbers message ! j = Num (nat (charCode ch))"
    using j by (simp add: messageToNumbers_def)
  have "strict_neq (elem cd (s + j)) (messageToNumbers message ! j)" for s
  proof (cases "s + j < length cd")
    case False
    then show ?thesis by (simp add: elem_def)
  next
    case True
    then have "decimal (cd ! (s + j))" using assms(1) by (simp add: list_all_length)
    then obtain a where "cd ! (s + j) = Num a" "a \<le> 9" by (cases "cd ! (s + j)") auto
    then show ?thesis using True assms(3) by (simp add: elem_def mj)
  qed
  then have "\<not> match_from cd (messageToNumbers message) s 0" for s
    using j(1) by (auto simp: match_from_iff messageToNumbers_def)
  then show ?thesis by (simp add: search_from_None_iff)
qed

subsection \<open>The base codec\<close>

lemma charCode_fromCharCode: "0 \<le> n \<Longrightarrow> n < 65536 \<Longrightarrow> charCode (fromCharCode n) = n"
  by (simp add: charCode_def fromCharCode_def uint_word_of_int take_bit_int_eq_self)

lemma fromCharCode_charCode: "fromCharCode (charCode ch) = ch"
  by (simp add: charCode_def fromCharCode_def)

lemma char_value_digit_char:
  assumes "2 \<le> b" and "b \<le> 65536" and "0 \<le> r" and "r < b"
  shows "char_value b (digit_char b r) = Inr r"
proof (cases "b \<le> 36")
  case True
  show ?thesis
  proof (cases "r < 10")
    case True
    then have "charCode (fromCharCode (48 + r)) = 48 + r"
      using assms(3) by (intro charCode_fromCharCode) simp_all
    then show ?thesis using True \<open>b \<le> 36\<close> assms(3) by (simp add: char_value_def digit_char_def)
  next
    case False
    then have "charCode (fromCharCode (65 + r - 10)) = 55 + r"
      using assms(4) \<open>b \<le> 36\<close> charCode_fromCharCode[of "65 + r - 10"] by simp
    then show ?thesis using False \<open>b \<le> 36\<close> assms(4) by (simp add: char_value_def digit_char_def)
  qed
next
  case False
  have "charCode (fromCharCode r) = r"
    using assms by (intro charCode_fromCharCode) simp_all
  then show ?thesis using False by (simp add: char_value_def digit_char_def)
qed

lemma numberToBase_loop_step:
  "0 < n \<Longrightarrow> 2 \<le> b \<Longrightarrow>
   numberToBase_loop n b acc = numberToBase_loop (n div b) b (digit_char b (n mod b) # acc)"
  by (subst numberToBase_loop.simps) simp

lemma numberToBase_loop_stop:
  "\<not> (0 < n \<and> 2 \<le> b) \<Longrightarrow> numberToBase_loop n b acc = acc"
  by (subst numberToBase_loop.simps) auto

lemma numberToBase_loop_acc:
  "numberToBase_loop n b acc = numberToBase_loop n b [] @ acc"
proof (induction "nat n" arbitrary: n acc rule: less_induct)
  case less
  show ?case
  proof (cases "0 < n \<and> 2 \<le> b")
    case False
    then show ?thesis by (simp add: numberToBase_loop_stop)
  next
    case True
    then have lt: "nat (n div b) < nat n" by (simp add: int_div_less_self)
    let ?d = "digit_char b (n mod b)"
    have a: "numberToBase_loop (n div b) b (?d # acc) = numberToBase_loop (n div b) b [] @ (?d # acc)"
      by (rule less[OF lt])
    have b: "numberToBase_loop (n div b) b [?d] = numberToBase_loop (n div b) b [] @ [?d]"
      by (rule less[OF lt])
    have "numberToBase_loop n b acc = numberToBase_loop (n div b) b (?d # acc)"
      using True by (intro numberToBase_loop_step) simp_all
    moreover have "numberToBase_loop n b [] = numberToBase_loop (n div b) b [?d]"
      using True by (intro numberToBase_loop_step) simp_all
    ultimately show ?thesis by (simp only: a b append_assoc append_Cons append_Nil)
  qed
qed

lemma baseToNumber_loop_append:
  "baseToNumber_loop (xs @ ys) b r =
     (case baseToNumber_loop xs b r of Inl err \<Rightarrow> Inl err | Inr v \<Rightarrow> baseToNumber_loop ys b v)"
  by (induction xs arbitrary: r) (simp_all split: sum.splits)

lemma loop_roundtrip:
  assumes "2 \<le> b" and "b \<le> 65536"
  shows "0 \<le> n \<Longrightarrow> baseToNumber_loop (numberToBase_loop n b []) b 0 = Inr n"
proof (induction "nat n" arbitrary: n rule: less_induct)
  case less
  show ?case
  proof (cases "0 < n")
    case False
    then have "n = 0" using less.prems by simp
    then show ?thesis by (simp add: numberToBase_loop_stop)
  next
    case True
    then have lt: "nat (n div b) < nat n" using assms(1) by (simp add: int_div_less_self)
    have nn: "0 \<le> n div b" using True assms(1) by (simp add: pos_imp_zdiv_nonneg_iff)
    have r: "0 \<le> n mod b" "n mod b < b" using assms(1) by simp_all
    have "numberToBase_loop n b [] = numberToBase_loop (n div b) b [] @ [digit_char b (n mod b)]"
      using True assms(1) numberToBase_loop_acc[of "n div b" b "[digit_char b (n mod b)]"]
      by (simp add: numberToBase_loop_step)
    then show ?thesis
      using less.hyps[OF lt nn] char_value_digit_char[OF assms r]
      by (simp add: baseToNumber_loop_append)
  qed
qed

lemma numberToBase_roundtrip:
  assumes "2 \<le> b" and "b \<le> 65536" and "0 \<le> v" and "0 < v \<or> b \<le> 36"
  shows "\<exists>s. numberToBase v b = Inr s \<and> baseToNumber s b = Inr v"
proof (cases "v = 0")
  case True
  then have "b \<le> 36" using assms(4) by simp
  then show ?thesis using True assms(1)
    by (simp add: numberToBase_def baseToNumber_def char_value_def charCode_def)
next
  case False
  then show ?thesis using assms loop_roundtrip[OF assms(1,2,3)]
    by (simp add: numberToBase_def baseToNumber_def)
qed

subsection \<open>Messages, fresh instances and known constants\<close>

lemma not_falsy_known: "known c \<Longrightarrow> \<not> falsy (constants c)"
  using constants_known[of c] by (auto simp: falsy_def)

lemma messageToNumbers_numbersToMessage:
  "list_all decimal ds \<Longrightarrow> messageToNumbers (numbersToMessage ds) = ds"
proof (induction ds)
  case Nil
  then show ?case by (simp add: messageToNumbers_def numbersToMessage_def)
next
  case (Cons d ds)
  then obtain a where a: "d = Num a" "a \<le> 9" by (cases d) auto
  then have "charCode (fromCharCode (int a)) = int a"
    by (intro charCode_fromCharCode) simp_all
  then show ?case using Cons a by (simp add: messageToNumbers_def numbersToMessage_def)
qed

lemma numbersToMessage_messageToNumbers:
  "numbersToMessage (messageToNumbers m) = m"
  by (induction m) (simp_all add: messageToNumbers_def numbersToMessage_def charCode_def fromCharCode_def)

lemma fields_constructor:
  "entropy (constructor tape) = tape" "drawn (constructor tape) = 0"
  by (simp_all add: constructor_def)

lemma cache_constructor: "baseDigitsCache (constructor tape) k = None"
  by (simp add: constructor_def)

lemma messageToNumbers_no_NaN: "\<forall>x\<in>set (messageToNumbers m). x \<noteq> NaN"
  by (auto simp: messageToNumbers_def)

lemma length_messageToNumbers [simp]: "length (messageToNumbers m) = length m"
  by (simp add: messageToNumbers_def)


subsection \<open>The selection made by encode\<close>

lemma findOptimalSequence_shape:
  assumes "findOptimalSequence m c b st = (Inr r, st')"
  shows "constant r = c" and "base r = b" and "\<not> found r \<Longrightarrow> r = fallback c b m"
  using assms
  by (auto simp: findOptimalSequence_def Let_def fallback_def
      split: prod.splits sum.splits option.splits)

lemma try_candidate_pick:
  "try_candidate m c b best st =
     (pick best (fst (findOptimalSequence m c b st)), snd (findOptimalSequence m c b st))"
proof (cases "findOptimalSequence m c b st")
  case (Pair r st')
  show ?thesis
  proof (cases r)
    case (Inl err)
    then show ?thesis using Pair by (simp add: try_candidate_def)
  next
    case (Inr x)
    then have "base x = b" using Pair findOptimalSequence_shape(2) by simp
    then show ?thesis using Pair Inr by (simp add: try_candidate_def)
  qed
qed

lemma encode_bases_pick:
  "encode_bases m c bs best st =
     (foldl pick best (fst (searches_bases m c bs st)), snd (searches_bases m c bs st))"
  by (induction bs arbitrary: best st) (simp_all add: try_candidate_pick split: prod.splits)

lemma encode_constants_pick:
  "encode_constants m cs bs best st =
     (foldl pick best (fst (searches_constants m cs bs st)), snd (searches_constants m cs bs st))"
  by (induction cs arbitrary: best st) (simp_all add: encode_bases_pick split: prod.splits)

lemma encode_pick:
  "m \<noteq> [] \<Longrightarrow>
   fst (encode m st) =
     (case fst (foldl pick (None, \<infinity>) (searches m st)) of
        None \<Rightarrow> Inl SequenceNotFound
      | Some r \<Rightarrow> Inr r)"
  by (simp add: encode_def encode_constants_pick searches_def split: prod.splits option.splits
      del: encode_constants.simps searches_constants.simps)

lemma toString_16: "\<exists>s. toString n 16 = Inr s"
  by (simp add: toString_def)

lemma weigh_first: "\<exists>k. weigh r 16 (None, \<infinity>) = (Some r, enat k)"
  using toString_16[of "start r"] toString_16[of "length' r"]
  by (auto simp: weigh_def Let_def)

lemma weigh_cases: "weigh r b best = best \<or> (\<exists>k. weigh r b best = (Some r, enat k))"
  by (auto simp: weigh_def Let_def split: sum.splits)

lemma pick_cases: "pick best x = best \<or> (\<exists>r k. x = Inr r \<and> pick best x = (Some r, enat k))"
  using weigh_cases by (cases x) auto

lemma foldl_pick_keeps:
  "fst best \<noteq> None \<Longrightarrow> fst (foldl pick best xs) \<noteq> None"
proof (induction xs arbitrary: best)
  case Nil
  then show ?case by simp
next
  case (Cons x xs)
  from pick_cases[of best x] Cons.prems have "fst (pick best x) \<noteq> None" by auto
  then show ?case using Cons.IH by simp
qed

lemma foldl_pick_from:
  "fst (foldl pick best xs) = Some r \<Longrightarrow> fst best = Some r \<or> Inr r \<in> set xs"
proof (induction xs arbitrary: best)
  case Nil
  then show ?case by simp
next
  case (Cons x xs)
  from Cons.IH[of "pick best x"] Cons.prems
  have "fst (pick best x) = Some r \<or> Inr r \<in> set xs" by simp
  then show ?case using pick_cases[of best x] by auto
qed

lemma searches_first:
  "\<exists>x rest. searches m st = Inr x # rest \<and> base x = 16"
proof -
  obtain r st' where f: "findOptimalSequence m ''pi'' 16 st = (r, st')"
    by (cases "findOptimalSequence m ''pi'' 16 st")
  from getConstantInBase_known[OF known_pi, of 16 10000 st] obtain x where r: "r = Inr x"
    using f by (auto simp: findOptimalSequence_def Let_def split: option.splits)
  then have "base x = 16" using f findOptimalSequence_shape(2) by simp
  then show ?thesis using f r by (simp add: searches_def split: prod.splits)
qed

lemma encode_succeeds:
  assumes "m \<noteq> []"
  shows "\<exists>r. fst (encode m st) = Inr r \<and> Inr r \<in> set (searches m st)"
proof -
  from searches_first[of m st] obtain x rest where
    s: "searches m st = Inr x # rest" "base x = 16" by blast
  from weigh_first[of x] obtain k where "weigh x 16 (None, \<infinity>) = (Some x, enat k)" by blast
  then have "fst (foldl pick (None, \<infinity>) (searches m st)) \<noteq> None"
    using s foldl_pick_keeps[of "(Some x, enat k)" rest] by simp
  then obtain r where r: "fst (foldl pick (None, \<infinity>) (searches m st)) = Some r" by blast
  then have "Inr r \<in> set (searches m st)" using foldl_pick_from[OF r] by simp
  then show ?thesis using r encode_pick[OF assms, of st] by simp
qed

lemma searches_bases_shape:
  "Inr r \<in> set (fst (searches_bases m c bs st)) \<Longrightarrow> \<not> found r \<Longrightarrow>
   start r = 0 \<and> length' r = length m * 2"
proof (induction bs arbitrary: st)
  case Nil
  then show ?case by simp
next
  case (Cons b bs)
  obtain x st' where f: "findOptimalSequence m c b st = (x, st')"
    by (cases "findOptimalSequence m c b st")
  from Cons.prems(1) f have "x = Inr r \<or> Inr r \<in> set (fst (searches_bases m c bs st'))"
    by (auto split: prod.splits)
  then show ?case
  proof
    assume "x = Inr r"
    then have "r = fallback c b m" using f Cons.prems(2) findOptimalSequence_shape(3) by blast
    then show ?thesis by (simp add: fallback_def)
  next
    assume "Inr r \<in> set (fst (searches_bases m c bs st'))"
    then show ?thesis using Cons.IH Cons.prems(2) by blast
  qed
qed

lemma searches_constants_shape:
  "Inr r \<in> set (fst (searches_constants m cs bs st)) \<Longrightarrow> \<not> found r \<Longrightarrow>
   start r = 0 \<and> length' r = length m * 2"
proof (induction cs arbitrary: st)
  case Nil
  then show ?case by simp
next
  case (Cons c cs)
  obtain rs st' where f: "searches_bases m c bs st = (rs, st')"
    by (cases "searches_bases m c bs st")
  from Cons.prems(1) f
  have "Inr r \<in> set (fst (searches_bases m c bs st)) \<or>
        Inr r \<in> set (fst (searches_constants m cs bs st'))"
    by (auto split: prod.splits)
  then show ?case using searches_bases_shape Cons.IH Cons.prems(2) by blast
qed

lemma findOptimalSequence_nondecimal:
  assumes "reachable st" and "known c" and "ch \<in> set message" and "10 \<le> charCode ch"
  shows "\<exists>st'. findOptimalSequence message c b st = (Inr (fallback c b message), st')"
proof -
  have i: "cache_sound st" "unit_interval (entropy st)"
    using reachable_wellformed[OF assms(1)] by (simp_all add: wellformed_def)
  from getConstantInBase_known[OF assms(2)] obtain ds st' where
    g: "getConstantInBase c b 10000 st = (Inr ds, st')" by blast
  with getConstantInBase_sound[OF i g] assms(2) obtain ext where
    "ds = seed_of c @ ext" "list_all decimal ext" by auto
  then have "list_all decimal ds" using decimal_seed_of[OF assms(2)] by simp
  then have "search_from ds (messageToNumbers message) 0 = None"
    using nondecimal_never_matches assms(3,4) by blast
  then show ?thesis using g by (simp add: findOptimalSequence_def fallback_def)
qed

lemma searches_bases_nondecimal:
  assumes "known c" and "ch \<in> set message" and "10 \<le> charCode ch"
  shows "reachable st \<Longrightarrow>
         fst (searches_bases message c bs st) = map (\<lambda>b. Inr (fallback c b message)) bs \<and>
         reachable (snd (searches_bases message c bs st))"
proof (induction bs arbitrary: st)
  case Nil
  then show ?case by simp
next
  case (Cons b bs)
  from findOptimalSequence_nondecimal[OF Cons.prems assms] obtain st' where
    f: "findOptimalSequence message c b st = (Inr (fallback c b message), st')" by blast
  have "reachable st'"
    using reachable.after_findOptimalSequence[OF Cons.prems, of message c b] f by simp
  from Cons.IH[OF this] show ?case using f by (auto split: prod.splits)
qed

lemma searches_constants_nondecimal:
  assumes "ch \<in> set message" and "10 \<le> charCode ch"
  shows "reachable st \<Longrightarrow> list_all known cs \<Longrightarrow>
         fst (searches_constants message cs bs st) =
           concat (map (\<lambda>c. map (\<lambda>b. Inr (fallback c b message)) bs) cs) \<and>
         reachable (snd (searches_constants message cs bs st))"
proof (induction cs arbitrary: st)
  case Nil
  then show ?case by simp
next
  case (Cons c cs)
  from Cons.prems(2) have k: "known c" "list_all known cs" by simp_all
  from searches_bases_nondecimal[OF k(1) assms Cons.prems(1), of bs]
  have b: "fst (searches_bases message c bs st) = map (\<lambda>b. Inr (fallback c b message)) bs"
    and r: "reachable (snd (searches_bases message c bs st))" by simp_all
  from Cons.IH[OF r k(2)] show ?case using b by (auto split: prod.splits)
qed

lemma searches_letter_A:
  "searches letter_A (constructor calm) =
     concat (map (\<lambda>c. map (\<lambda>b. Inr (fallback c b letter_A)) [16, 32, 64, 256]) [''pi'', ''e'', ''phi''])"
proof -
  have "(0x41 :: codeunit) \<in> set letter_A" "10 \<le> charCode (0x41 :: codeunit)"
    by (simp_all add: letter_A_def charCode_def)
  from searches_constants_nondecimal[OF this reachable.fresh[OF unit_calm], of "[''pi'', ''e'', ''phi'']"]
  show ?thesis unfolding searches_def by (simp add: known_def del: searches_constants.simps)
qed


subsection \<open>Repeated requests\<close>

lemma filler_calm: "filler calm from m = replicate m (Num 0)"
  by (simp add: filler_def calm_def map_replicate_const)

lemma filler_lively: "filler lively from m = replicate m (Num 5)"
  by (simp add: filler_def lively_def map_replicate_const)

lemma getConstantInBase_fresh:
  "known c \<Longrightarrow>
   getConstantInBase c b n (constructor tape) =
     (Inr (seed_of c @ filler tape 0 (nat (n - 101))),
      \<lparr>baseDigitsCache = [(c, b, n) \<mapsto> seed_of c @ filler tape 0 (nat (n - 101))],
       entropy = tape, drawn = nat (n - 101)\<rparr>)"
  by (simp add: getConstantInBase_miss[OF cache_constructor] fields_constructor)
     (simp add: constructor_def)

lemma getConstantInBase_again:
  assumes "getConstantInBase c b n st = (Inr ds, st')"
  shows "getConstantInBase c b n st' = (Inr ds, st')"
proof (cases "baseDigitsCache st (c, b, n)")
  case (Some cached)
  then show ?thesis using assms by (simp add: getConstantInBase_hit)
next
  case None
  have "baseDigitsCache st' (c, b, n) = Some ds"
    using assms None
    by (auto simp: getConstantInBase_def split: if_splits property.splits prod.splits)
  then show ?thesis by (rule getConstantInBase_hit)
qed

lemma seed_prefix_stable:
  assumes "reachable st" and "getConstantInBase c b n st = (Inr ds, st')"
    and "getConstantInBase c b n' st' = (Inr ds', st'')"
  shows "take 101 ds' = take 101 ds"
proof -
  have i: "cache_sound st" "unit_interval (entropy st)"
    using reachable_wellformed[OF assms(1)] by (simp_all add: wellformed_def)
  have r': "reachable st'"
    using reachable.after_getConstantInBase[OF assms(1), of c b n] assms(2) by simp
  have i': "cache_sound st'" "unit_interval (entropy st')"
    using reachable_wellformed[OF r'] by (simp_all add: wellformed_def)
  have k: "known c" using getConstantInBase_sound[OF i assms(2)] by auto
  from getConstantInBase_sound[OF i assms(2)] k obtain ext where "ds = seed_of c @ ext" by auto
  moreover from getConstantInBase_sound[OF i' assms(3)] k obtain ext' where
    "ds' = seed_of c @ ext'" by auto
  ultimately show ?thesis using length_seed_of[OF k] by simp
qed

subsection \<open>Matches and the round trip\<close>

lemma search_from_occurs:
  assumes "search_from ds (messageToNumbers m) 0 = Some s"
  shows "s + length m < length ds" and "occurs_at ds (messageToNumbers m) s"
proof -
  let ?mn = "messageToNumbers m"
  from assms have lt: "int s < int (length ds) - int (length ?mn)" and mt: "match_from ds ?mn s 0"
    by (simp_all add: search_from_Some_iff)
  from lt have le: "s + length ?mn \<le> length ds" by simp
  from lt show "s + length m < length ds" by simp
  from mt match_from_occurs[OF le messageToNumbers_no_NaN] show "occurs_at ds ?mn s" by simp
qed

lemma findOptimalSequence_found:
  assumes "reachable st" and "findOptimalSequence m c b st = (Inr r, st')" and "found r"
  shows "constant r = c \<and> base r = b \<and> known c \<and> length' r = length m \<and>
         (\<exists>ext. occurs_at (seed_of c @ ext) (messageToNumbers m) (start r))"
proof -
  have i: "cache_sound st" "unit_interval (entropy st)"
    using reachable_wellformed[OF assms(1)] by (simp_all add: wellformed_def)
  obtain res st1 where g: "getConstantInBase c b 10000 st = (res, st1)"
    by (cases "getConstantInBase c b 10000 st")
  have k: "known c"
  proof (rule ccontr)
    assume "\<not> known c"
    with getConstantInBase_sound[OF i g] obtain err where "res = Inl err" by auto
    then show False using g assms(2) by (simp add: findOptimalSequence_def)
  qed
  with getConstantInBase_sound[OF i g] obtain ext where res: "res = Inr (seed_of c @ ext)" by auto
  show ?thesis
  proof (cases "search_from (seed_of c @ ext) (messageToNumbers m) 0")
    case None
    then show ?thesis using g res assms(2,3) by (auto simp: findOptimalSequence_def)
  next
    case (Some s)
    then have "r = \<lparr>constant = c, base = b, start = s, length' = length m, found = True\<rparr>"
      using g res assms(2) by (auto simp: findOptimalSequence_def)
    then show ?thesis using k search_from_occurs(2)[OF Some] by auto
  qed
qed

lemma searches_bases_found:
  "reachable st \<Longrightarrow> Inr r \<in> set (fst (searches_bases m c bs st)) \<Longrightarrow> found r \<Longrightarrow>
   known (constant r) \<and> length' r = length m \<and>
   (\<exists>ext. occurs_at (seed_of (constant r) @ ext) (messageToNumbers m) (start r))"
proof (induction bs arbitrary: st)
  case Nil
  then show ?case by simp
next
  case (Cons b bs)
  obtain x st' where f: "findOptimalSequence m c b st = (x, st')"
    by (cases "findOptimalSequence m c b st")
  have r': "reachable st'"
    using reachable.after_findOptimalSequence[OF Cons.prems(1), of m c b] f by simp
  from Cons.prems(2) f have "x = Inr r \<or> Inr r \<in> set (fst (searches_bases m c bs st'))"
    by (auto split: prod.splits)
  then show ?case
  proof
    assume "x = Inr r"
    then show ?thesis using findOptimalSequence_found[OF Cons.prems(1) _ Cons.prems(3)] f by auto
  next
    assume "Inr r \<in> set (fst (searches_bases m c bs st'))"
    then show ?thesis using Cons.IH[OF r' _ Cons.prems(3)] by blast
  qed
qed

lemma reachable_searches_bases:
  "reachable st \<Longrightarrow> reachable (snd (searches_bases m c bs st))"
proof (induction bs arbitrary: st)
  case Nil
  then show ?case by simp
next
  case (Cons b bs)
  have "reachable (snd (findOptimalSequence m c b st))"
    by (rule reachable.after_findOptimalSequence[OF Cons.prems])
  from Cons.IH[OF this] show ?case by (auto split: prod.splits)
qed

lemma searches_constants_found:
  "reachable st \<Longrightarrow> Inr r \<in> set (fst (searches_constants m cs bs st)) \<Longrightarrow> found r \<Longrightarrow>
   known (constant r) \<and> length' r = length m \<and>
   (\<exists>ext. occurs_at (seed_of (constant r) @ ext) (messageToNumbers m) (start r))"
proof (induction cs arbitrary: st)
  case Nil
  then show ?case by simp
next
  case (Cons c cs)
  obtain rs st' where f: "searches_bases m c bs st = (rs, st')"
    by (cases "searches_bases m c bs st")
  have r': "reachable st'" using reachable_searches_bases[OF Cons.prems(1), of m c bs] f by simp
  from Cons.prems(2) f
  have "Inr r \<in> set (fst (searches_bases m c bs st)) \<or>
        Inr r \<in> set (fst (searches_constants m cs bs st'))"
    by (auto split: prod.splits)
  then show ?case
    using searches_bases_found[OF Cons.prems(1) _ Cons.prems(3)] Cons.IH[OF r' _ Cons.prems(3)]
    by blast
qed

lemma slice_inside:
  "s + n \<le> length xs \<Longrightarrow> slice (xs @ ys) (int s) (int s + int n) = take n (drop s xs)"
  by (simp add: slice_def Let_def min_def)

lemma fst_decode:
  "\<not> falsy (constants c) \<Longrightarrow>
   fst (decode c b s n st) =
     (case fst (getConstantInBase c b (s + n) st) of
        Inl err \<Rightarrow> Inl err
      | Inr ds \<Rightarrow> Inr (numbersToMessage (slice ds s (s + n))))"
  by (simp add: decode_def split: prod.splits sum.splits)

lemma snd_encode_searches:
  "m \<noteq> [] \<Longrightarrow>
   snd (encode m st) = snd (searches_constants m [''pi'', ''e'', ''phi''] [16, 32, 64, 256] st)"
  by (simp add: snd_encode encode_constants_pick
      del: encode_constants.simps searches_constants.simps)

lemma roundtrip_within_seed:
  assumes "reachable st" and "encode m st = (Inr r, st')" and "found r"
    and "start r + length' r \<le> 101"
  shows "fst (decode (constant r) (base r) (int (start r)) (int (length' r)) st') = Inr m"
proof -
  have ne: "m \<noteq> []" using assms(2) by (auto simp: encode_def)
  from encode_succeeds[OF ne, of st] assms(2) have "Inr r \<in> set (searches m st)" by simp
  from searches_constants_found[OF assms(1) this[unfolded searches_def] assms(3)]
  obtain ext where k: "known (constant r)" and l: "length' r = length m"
    and o: "occurs_at (seed_of (constant r) @ ext) (messageToNumbers m) (start r)" by blast
  let ?c = "constant r"
  have inseed: "take (length m) (drop (start r) (seed_of ?c)) = messageToNumbers m"
    using o assms(4) l length_seed_of[OF k] by (simp add: occurs_at_def)
  have r': "reachable st'" using reachable.after_encode[OF assms(1), of m] assms(2) by simp
  have i: "cache_sound st'" "unit_interval (entropy st')"
    using reachable_wellformed[OF r'] by (simp_all add: wellformed_def)
  obtain res st2 where
    g: "getConstantInBase ?c (base r) (int (start r) + int (length' r)) st' = (res, st2)"
    by (cases "getConstantInBase ?c (base r) (int (start r) + int (length' r)) st'")
  with getConstantInBase_sound[OF i g] k obtain ext' where
    res: "res = Inr (seed_of ?c @ ext')" by auto
  have "slice (seed_of ?c @ ext') (int (start r)) (int (start r) + int (length' r)) =
        take (length' r) (drop (start r) (seed_of ?c))"
    using assms(4) length_seed_of[OF k] by (intro slice_inside) simp
  then show ?thesis
    using g res inseed l
    by (simp add: fst_decode[OF not_falsy_known[OF k]] numbersToMessage_messageToNumbers)
qed

subsection \<open>One encode of two NUL characters\<close>

lemma messageToNumbers_two_nuls: "messageToNumbers two_nuls = [Num 0, Num 0]"
  by (simp add: messageToNumbers_def two_nuls_def charCode_def)

lemma filler_turning_early:
  "from + m \<le> 118788 \<Longrightarrow> filler turning from m = replicate m (Num 0)"
  by (simp add: filler_def turning_def list_eq_iff_nth_eq)

lemma filler_turning_late: "118788 \<le> from \<Longrightarrow> filler turning from m = replicate m (Num 5)"
  by (simp add: filler_def turning_def list_eq_iff_nth_eq)

lemma pair_in_zip_tl:
  "Suc i < length xs \<Longrightarrow> (xs ! i, xs ! Suc i) \<in> set (zip xs (tl xs))"
  by (auto simp: in_set_zip nth_tl intro!: exI[of _ i])

lemma first_double_zero:
  assumes "(Num 0, Num 0) \<notin> set (zip xs (tl xs))" and "xs \<noteq> []" and "last xs \<noteq> Num 0"
    and "2 < m"
  shows "search_from (xs @ replicate m (Num 0)) [Num 0, Num 0] 0 = Some (length xs)"
proof -
  let ?cd = "xs @ replicate m (Num 0)"
  let ?mn = "[Num 0, Num 0]"
  have here: "match_from ?cd ?mn (length xs) 0"
    using assms(4) by (auto simp: match_from_iff elem_def nth_append less_Suc_eq)
  have before: "\<not> match_from ?cd ?mn s 0" if "s < length xs" for s
  proof
    assume "match_from ?cd ?mn s 0"
    then have all: "\<forall>j. 0 \<le> j \<and> j < length ?mn \<longrightarrow> \<not> strict_neq (elem ?cd (s + j)) (?mn ! j)"
      unfolding match_from_iff .
    have a: "\<not> strict_neq (elem ?cd (s + 0)) (?mn ! 0)"
      using all[rule_format, of 0] by simp
    have b: "\<not> strict_neq (elem ?cd (s + 1)) (?mn ! 1)"
      using all[rule_format, of 1] by simp
    from a have x0: "xs ! s = Num 0"
      using that by (auto simp: strict_neq_iff elem_def nth_append split: if_splits)
    show False
    proof (cases "Suc s < length xs")
      case True
      from b have "xs ! Suc s = Num 0"
        using True by (auto simp: strict_neq_iff elem_def nth_append split: if_splits)
      then show False using x0 pair_in_zip_tl[OF True] assms(1) by simp
    next
      case False
      then have "s = length xs - 1" using that by simp
      then have "xs ! s = last xs" using assms(2) by (simp add: last_conv_nth)
      then show False using x0 assms(3) by simp
    qed
  qed
  show ?thesis
    using here before assms(4) by (simp add: search_from_Some_iff)
qed

lemma search_seed_zeros:
  "known c \<Longrightarrow> search_from (seed_of c @ replicate 9899 (Num 0)) [Num 0, Num 0] 0 = Some 101"
proof (erule known_cases)
  assume c: "c = ''pi''"
  have "search_from (seed_of ''pi'' @ replicate 9899 (Num 0)) [Num 0, Num 0] 0 = Some (length (seed_of ''pi''))"
    by (rule first_double_zero) (simp_all add: seed_of_pi)
  then show ?thesis using c by (simp add: length_seed_of known_def)
next
  assume c: "c = ''e''"
  have "search_from (seed_of ''e'' @ replicate 9899 (Num 0)) [Num 0, Num 0] 0 = Some (length (seed_of ''e''))"
    by (rule first_double_zero) (simp_all add: seed_of_e)
  then show ?thesis using c by (simp add: length_seed_of known_def)
next
  assume c: "c = ''phi''"
  have "search_from (seed_of ''phi'' @ replicate 9899 (Num 0)) [Num 0, Num 0] 0 = Some (length (seed_of ''phi''))"
    by (rule first_double_zero) (simp_all add: seed_of_phi)
  then show ?thesis using c by (simp add: length_seed_of known_def)
qed

lemma findOptimalSequence_two_nuls:
  assumes "baseDigitsCache st (c, b, 10000) = None" and "known c"
    and "entropy st = turning" and "drawn st + 9899 \<le> 118788"
  shows "findOptimalSequence two_nuls c b st =
     (Inr \<lparr>constant = c, base = b, start = 101, length' = 2, found = True\<rparr>,
      st\<lparr>drawn := drawn st + 9899,
         baseDigitsCache := (baseDigitsCache st)((c, b, 10000) \<mapsto>
            seed_of c @ replicate 9899 (Num 0))\<rparr>)"
  using assms
  by (simp add: findOptimalSequence_def getConstantInBase_miss messageToNumbers_two_nuls
      filler_turning_early search_seed_zeros)

lemma trace_two_nuls:
  "fst (searches_constants two_nuls [''pi'', ''e'', ''phi''] [16, 32, 64, 256] (constructor turning)) =
     concat (map (\<lambda>c. map (\<lambda>b. Inr \<lparr>constant = c, base = b, start = 101, length' = 2, found = True\<rparr>)
        [16, 32, 64, 256]) [''pi'', ''e'', ''phi''])"
  "entropy (snd (searches_constants two_nuls [''pi'', ''e'', ''phi''] [16, 32, 64, 256] (constructor turning))) = turning"
  "drawn (snd (searches_constants two_nuls [''pi'', ''e'', ''phi''] [16, 32, 64, 256] (constructor turning))) = 118788"
  "baseDigitsCache (snd (searches_constants two_nuls [''pi'', ''e'', ''phi''] [16, 32, 64, 256] (constructor turning)))
     (''pi'', 16, 103) = None"
  by (simp_all add: constructor_def findOptimalSequence_two_nuls known_def)

lemma two_nuls_nonempty: "two_nuls \<noteq> []"
  by (simp add: two_nuls_def)

lemma state_after_two_nuls:
  "entropy (snd (encode two_nuls (constructor turning))) = turning"
  "drawn (snd (encode two_nuls (constructor turning))) = 118788"
  "baseDigitsCache (snd (encode two_nuls (constructor turning))) (''pi'', 16, 103) = None"
  by (simp_all only: snd_encode_searches[OF two_nuls_nonempty] trace_two_nuls)

lemma encode_two_nuls:
  "fst (encode two_nuls (constructor turning)) =
     Inr \<lparr>constant = ''pi'', base = 16, start = 101, length' = 2, found = True\<rparr>"
  unfolding encode_pick[OF two_nuls_nonempty] searches_def trace_two_nuls(1)
  by (simp add: weigh_def toString_def radix_digits.simps)


subsection \<open>Names that are not constants\<close>

lemma constants_Undefined_iff:
  "constants c = Undefined \<longleftrightarrow> \<not> known c \<and> c \<notin> set Object_prototype"
  by (simp add: constants_def known_def)

lemma constants_Inherited_iff:
  "constants c = Inherited \<longleftrightarrow> \<not> known c \<and> c \<in> set Object_prototype"
  by (simp add: constants_def known_def)

lemma decode_inherited_name:
  assumes "reachable st" and "c \<in> set Object_prototype"
  shows "decode c b s n st = (Inl TypeError, st)"
proof -
  have nk: "\<not> known c" using assms(2) by (auto simp: known_def Object_prototype_def)
  then have inh: "constants c = Inherited" using assms(2) by (simp add: constants_Inherited_iff)
  have "cache_sound st" using reachable_wellformed[OF assms(1)] by (simp add: wellformed_def)
  then have "baseDigitsCache st (c, b, s + n) = None"
    using nk unfolding cache_sound_def by (cases "baseDigitsCache st (c, b, s + n)") auto
  then show ?thesis using inh by (simp add: decode_def getConstantInBase_def falsy_def)
qed

lemma decode_toString: "decode ''toString'' 10 0 3 (constructor calm) = (Inl TypeError, constructor calm)"
  by (rule decode_inherited_name[OF reachable.fresh[OF unit_calm]]) (simp add: Object_prototype_def)


section \<open>The claims\<close>

text \<open>
  C1. The claim: whenever \<open>encode\<close> returns a tuple with \<open>found: true\<close>, \<open>decode\<close> of that
  tuple returns the message. This holds when the match lies inside the 101 digits of the
  source text (lemma \<open>roundtrip_within_seed\<close>). A match in the random filler is lost:
  \<open>decode\<close> asks for the depth \<open>start + length\<close>, which is another cache key than the depth
  \<open>10000\<close> of the search, and the digits past 101 are drawn anew. For the message of two NUL
  characters, with \<open>Math.random\<close> returning \<open>0\<close> during \<open>encode\<close> and \<open>0.5\<close> afterwards,
  \<open>encode\<close> reports the match at offset 101 in \<open>pi\<close> and \<open>decode\<close> returns two characters of
  code 5.
\<close>

theorem roundtrip_lost_beyond_seed:
  "fst (encode two_nuls (constructor turning)) =
     Inr \<lparr>constant = ''pi'', base = 16, start = 101, length' = 2, found = True\<rparr> \<and>
   fst (decode ''pi'' 16 101 2 (snd (encode two_nuls (constructor turning)))) = Inr [5, 5]"
proof -
  let ?st = "snd (encode two_nuls (constructor turning))"
  have "baseDigitsCache ?st (''pi'', 16, 101 + 2) = None"
    by (simp add: state_after_two_nuls)
  from getConstantInBase_miss[OF this known_pi]
  have "fst (getConstantInBase ''pi'' 16 (101 + 2) ?st) =
     Inr (seed_of ''pi'' @ replicate 2 (Num 5))"
    by (simp add: state_after_two_nuls filler_turning_late)
  then have "fst (decode ''pi'' 16 101 2 ?st) = Inr [5, 5]"
    by (simp add: fst_decode[OF not_falsy_known[OF known_pi]] slice_def
        length_seed_of[OF known_pi] numbersToMessage_def fromCharCode_def numeral_2_eq_2)
  then show ?thesis using encode_two_nuls by simp
qed

text \<open>
  C2 (as amended). For a non-empty message \<open>encode\<close> does not fail: it returns a tuple. When
  none of the candidate searches finds the message, that tuple is the fallback of a
  search, with \<open>found: false\<close>, \<open>start: 0\<close> and twice the message's length as \<open>length\<close>. So
  success is never claimed for an unmatched message, but no \<open>SequenceNotFound\<close> is raised
  and the position \<open>0\<close> is made up.
\<close>

theorem encode_returns_fallback:
  assumes "message \<noteq> []"
  shows "\<exists>r. fst (encode message st) = Inr r \<and>
           (none_found message st \<longrightarrow>
              \<not> found r \<and> start r = 0 \<and> length' r = length message * 2)"
proof -
  from encode_succeeds[OF assms, of st] obtain r where
    r: "fst (encode message st) = Inr r" "Inr r \<in> set (searches message st)" by blast
  have "\<not> found r \<and> start r = 0 \<and> length' r = length message * 2" if "none_found message st"
  proof -
    from that r(2) have nf: "\<not> found r"
      by (auto simp: none_found_def list_ex_iff)
    then show ?thesis
      using searches_constants_shape[of r message _ _ st] r(2) unfolding searches_def by blast
  qed
  then show ?thesis using r(1) by blast
qed

theorem encode_returns_fallback_witness:
  "letter_A \<noteq> [] \<and> none_found letter_A (constructor calm) \<and>
   (\<exists>r. fst (encode letter_A (constructor calm)) = Inr r \<and>
         \<not> found r \<and> start r = 0 \<and> length' r = 2)"
proof -
  have ne: "letter_A \<noteq> []" by (simp add: letter_A_def)
  have nf: "none_found letter_A (constructor calm)"
    by (simp add: none_found_def searches_letter_A fallback_def)
  from encode_returns_fallback[OF ne, of "constructor calm"] nf
  show ?thesis using ne by (simp add: letter_A_def)
qed

text \<open>
  The claim as stated fails for the message \<open>"A"\<close> on a fresh instance whose
  \<open>Math.random\<close> returns zeros: no search finds it, and \<open>encode\<close> returns a tuple instead of
  failing.
\<close>

theorem unmatched_message_counterexample:
  "none_found letter_A (constructor calm) \<and>
   fst (encode letter_A (constructor calm)) =
     Inr \<lparr>constant = ''pi'', base = 16, start = 0, length' = 2, found = False\<rparr>"
proof -
  have ne: "letter_A \<noteq> []" by (simp add: letter_A_def)
  have "none_found letter_A (constructor calm)"
    by (simp add: none_found_def searches_letter_A fallback_def)
  moreover have "fst (encode letter_A (constructor calm)) =
     Inr \<lparr>constant = ''pi'', base = 16, start = 0, length' = 2, found = False\<rparr>"
    unfolding encode_pick[OF ne] searches_letter_A
    by (simp add: fallback_def weigh_def toString_def radix_digits.simps letter_A_def)
  ultimately show ?thesis by simp
qed

text \<open>
  C3. The claim: two calls of the digit generator with the same constant, base and
  depth return the same digits, with no randomness. On one instance the second call
  reads the cache (lemma \<open>getConstantInBase_again\<close>), and the first 101 digits never change
  (lemma \<open>seed_prefix_stable\<close>). But every digit past the 101 of the source text is
  \<open>Math.floor(Math.random() * 10)\<close>: the same request on two fresh instances, as after a
  restart, gives \<open>0\<close> at index 101 when \<open>Math.random\<close> returns \<open>0\<close> and \<open>5\<close> when it returns \<open>0.5\<close>.
\<close>

theorem restart_changes_digits:
  "fst (getConstantInBase ''pi'' 10 102 (constructor calm)) = Inr (seed_of ''pi'' @ [Num 0]) \<and>
   fst (getConstantInBase ''pi'' 10 102 (constructor lively)) = Inr (seed_of ''pi'' @ [Num 5])"
  by (simp add: getConstantInBase_fresh[OF known_pi] filler_calm filler_lively)

text \<open>
  C4. In every reachable state, every element of an array returned by
  \<open>getConstantInBase\<close> is a decimal digit \<open>0..9\<close>, whatever the base: the digits of the
  constant's text and the random filler are both decimal. Consequently, for a message
  with at least one character of code \<open>10\<close> or more, \<open>findOptimalSequence\<close> returns its
  fallback with \<open>found: false\<close>, for each of the three constants and every base.
\<close>

theorem digits_decimal_no_match:
  assumes "reachable st"
  shows "(\<forall>ds st'. getConstantInBase c b n st = (Inr ds, st') \<longrightarrow> list_all decimal ds) \<and>
         (known c \<and> (\<exists>ch\<in>set message. 10 \<le> charCode ch) \<longrightarrow>
            (\<exists>st'. findOptimalSequence message c b st =
               (Inr \<lparr>constant = c, base = b, start = 0, length' = length message * 2,
                     found = False\<rparr>, st')))"
proof -
  have i: "cache_sound st" "unit_interval (entropy st)"
    using reachable_wellformed[OF assms] by (simp_all add: wellformed_def)
  have dec: "list_all decimal ds"
    if "getConstantInBase c' b' n' st = (Inr ds, st')" for c' b' n' ds st'
  proof (cases "known c'")
    case True
    with getConstantInBase_sound[OF i that] obtain ext where
      "ds = seed_of c' @ ext" "list_all decimal ext" by auto
    then show ?thesis using decimal_seed_of[OF True] by simp
  next
    case False
    with getConstantInBase_sound[OF i that] show ?thesis by auto
  qed
  have "\<exists>st'. findOptimalSequence message c b st =
               (Inr \<lparr>constant = c, base = b, start = 0, length' = length message * 2,
                     found = False\<rparr>, st')"
    if k: "known c" and big: "\<exists>ch\<in>set message. 10 \<le> charCode ch"
    using findOptimalSequence_nondecimal[OF assms k] big by (auto simp: fallback_def)
  then show ?thesis using dec by blast
qed

theorem digits_decimal_no_match_witness:
  "reachable (constructor calm) \<and>
   (\<exists>ds st'. getConstantInBase ''pi'' 16 10000 (constructor calm) = (Inr ds, st') \<and>
      list_all decimal ds) \<and>
   (\<exists>st'. findOptimalSequence [0x41] ''pi'' 16 (constructor calm) =
      (Inr \<lparr>constant = ''pi'', base = 16, start = 0, length' = 2, found = False\<rparr>, st'))"
proof -
  have r: "reachable (constructor calm)" by (rule reachable.fresh[OF unit_calm])
  have "known ''pi'' \<and> (\<exists>ch\<in>set [0x41 :: codeunit]. 10 \<le> charCode ch)"
    by (simp add: known_def charCode_def)
  moreover obtain ds st' where "getConstantInBase ''pi'' 16 10000 (constructor calm) = (Inr ds, st')"
    using getConstantInBase_known[OF known_pi] by blast
  ultimately show ?thesis
    using digits_decimal_no_match[OF r, of "''pi''" 16 10000 "[0x41]"] r by auto
qed

text \<open>
  C5. The claim: a request to depth \<open>k\<close> and then one to depth \<open>k + j\<close> agree on the first
  \<open>k\<close> digits. The cache key contains the depth, so the deeper request builds a new array
  and draws new random digits for everything past the 101 digits of the source text: on
  one instance, depth 102 gives \<open>0\<close> at index 101 and depth 103 then gives \<open>5\<close> there, when
  \<open>Math.random\<close> returns \<open>0\<close> first and \<open>0.5\<close> afterwards.
\<close>

theorem deeper_request_redraws:
  "fst (getConstantInBase ''pi'' 10 102 (constructor shifting)) = Inr (seed_of ''pi'' @ [Num 0]) \<and>
   fst (getConstantInBase ''pi'' 10 103
          (snd (getConstantInBase ''pi'' 10 102 (constructor shifting)))) =
     Inr (seed_of ''pi'' @ [Num 5, Num 5])"
  by (simp add: getConstantInBase_fresh[OF known_pi] getConstantInBase_miss[OF _ known_pi]
      filler_def shifting_def map_replicate_const numeral_2_eq_2)

text \<open>
  C6 (as amended). \<open>decode\<close> checks the constant's name and nothing else. It fails with
  \<open>UnknownConstant\<close> when \<open>this.constants[constant]\<close> is undefined, that is, for a name
  that is neither \<open>pi\<close>, \<open>e\<close>, \<open>phi\<close> nor a property of \<open>Object.prototype\<close>; so for \<open>"xi"\<close>. For
  \<open>pi\<close>, \<open>e\<close> and \<open>phi\<close> it returns a string for every base, start and length, also for a
  base outside \<open>2..65536\<close> and for negative numbers: there is no \<open>InvalidBase\<close> and no
  \<open>RangeError\<close>. In every reachable state \<open>decode("pi", 10, -1, 3)\<close> returns the empty
  string, since \<open>slice(-1, 2)\<close> of an array of at least 101 digits is empty.
\<close>

theorem decode_validates_name_only:
  "(\<not> known c \<and> c \<notin> set Object_prototype \<longrightarrow>
      decode c b s n st = (Inl (UnknownConstant c), st)) \<and>
   (known c \<longrightarrow> (\<exists>message st'. decode c b s n st = (Inr message, st'))) \<and>
   decode ''xi'' 10 0 3 st = (Inl (UnknownConstant ''xi''), st) \<and>
   (reachable st \<longrightarrow> fst (decode ''pi'' 10 (-1) 3 st) = Inr [])"
proof -
  have "fst (decode ''pi'' 10 (-1) 3 st) = Inr []" if r: "reachable st"
  proof -
    obtain res st' where g: "getConstantInBase ''pi'' 10 (-1 + 3) st = (res, st')"
      by (cases "getConstantInBase ''pi'' 10 (-1 + 3) st")
    have i: "cache_sound st" "unit_interval (entropy st)"
      using reachable_wellformed[OF r] by (simp_all add: wellformed_def)
    from getConstantInBase_sound[OF i g] known_pi
    obtain ext where res: "res = Inr (seed_of ''pi'' @ ext)" by blast
    have "slice (seed_of ''pi'' @ ext) (-1) (-1 + 3) = []"
      by (simp add: slice_def length_seed_of[OF known_pi])
    then show ?thesis
      using g res by (simp add: fst_decode[OF not_falsy_known[OF known_pi]] numbersToMessage_def)
  qed
  moreover
  have "\<exists>message st'. decode c b s n st = (Inr message, st')" if k: "known c"
  proof -
    from getConstantInBase_known[OF k] obtain ds st' where
      "getConstantInBase c b (s + n) st = (Inr ds, st')" by blast
    then show ?thesis using not_falsy_known[OF k] by (simp add: decode_def)
  qed
  moreover have "constants ''xi'' = Undefined"
    by (simp add: constants_def Object_prototype_def)
  ultimately show ?thesis by (simp add: decode_def falsy_def constants_Undefined_iff)
qed

theorem decode_validates_name_only_witness:
  "\<not> known ''xi'' \<and> ''xi'' \<notin> set Object_prototype \<and> known ''pi'' \<and>
   decode ''xi'' 70000 (-1) (-3) (constructor calm) = (Inl (UnknownConstant ''xi''), constructor calm) \<and>
   (\<exists>message st'. decode ''pi'' 70000 (-1) (-3) (constructor calm) = (Inr message, st')) \<and>
   reachable (constructor calm) \<and> fst (decode ''pi'' 10 (-1) 3 (constructor calm)) = Inr []"
proof -
  have x: "\<not> known ''xi'' \<and> ''xi'' \<notin> set Object_prototype"
    by (simp add: known_def Object_prototype_def)
  show ?thesis
    using decode_validates_name_only[of "''xi''" 70000 "-1" "-3" "constructor calm"]
          decode_validates_name_only[of "''pi''" 70000 "-1" "-3" "constructor calm"]
          x known_pi reachable.fresh[OF unit_calm]
    by simp
qed

text \<open>
  The claim as stated fails: on a fresh instance \<open>decode("pi", 10, -1, 3)\<close> returns the
  empty string instead of failing with \<open>RangeError\<close>, and the bases \<open>1\<close> and \<open>70000\<close> decode
  the first three digits instead of failing with \<open>InvalidBase\<close>.
\<close>

theorem decode_no_range_check_counterexample:
  "fst (decode ''pi'' 10 (-1) 3 (constructor calm)) = Inr [] \<and>
   fst (decode ''pi'' 1 0 3 (constructor calm)) = Inr [3, 1, 4] \<and>
   fst (decode ''pi'' 70000 0 3 (constructor calm)) = Inr [3, 1, 4]"
  by (simp add: decode_def not_falsy_known known_pi getConstantInBase_miss cache_constructor
      seed_of_pi slice_def numbersToMessage_def fromCharCode_def filler_def)

text \<open>
  C7. For \<open>pi\<close> in base \<open>10\<close> the digit generator yields \<open>1, 4, 1, 5\<close> at the fractional
  positions \<open>1\<close> to \<open>4\<close>. The array that \<open>getConstantInBase\<close> returns starts with the integer
  digit \<open>3\<close> at index \<open>0\<close>, so the fractional position \<open>k\<close>, counted from one, is the index
  \<open>k\<close>. This holds in every reachable state and for every requested depth.
\<close>

theorem pi_fractional_digits:
  assumes "reachable st"
  shows "\<exists>ds st'. getConstantInBase ''pi'' 10 n st = (Inr ds, st') \<and> ds ! 0 = Num 3 \<and>
           ds ! 1 = Num 1 \<and> ds ! 2 = Num 4 \<and> ds ! 3 = Num 1 \<and> ds ! 4 = Num 5"
proof -
  obtain r st' where g: "getConstantInBase ''pi'' 10 n st = (r, st')"
    by (cases "getConstantInBase ''pi'' 10 n st")
  have i: "cache_sound st" "unit_interval (entropy st)"
    using reachable_wellformed[OF assms] by (simp_all add: wellformed_def)
  from getConstantInBase_sound[OF i g] known_pi
  obtain ext where r: "r = Inr (seed_of ''pi'' @ ext)" by blast
  have "(seed_of ''pi'' @ ext) ! 0 = Num 3"
       "(seed_of ''pi'' @ ext) ! 1 = Num 1" "(seed_of ''pi'' @ ext) ! 2 = Num 4"
       "(seed_of ''pi'' @ ext) ! 3 = Num 1" "(seed_of ''pi'' @ ext) ! 4 = Num 5"
    by (simp_all add: seed_of_pi)
  then show ?thesis using g r by blast
qed

theorem pi_fractional_digits_witness:
  "reachable (constructor calm) \<and>
   (\<exists>ds st'. getConstantInBase ''pi'' 10 10000 (constructor calm) = (Inr ds, st') \<and>
           ds ! 0 = Num 3 \<and>
           ds ! 1 = Num 1 \<and> ds ! 2 = Num 4 \<and> ds ! 3 = Num 1 \<and> ds ! 4 = Num 5)"
  using pi_fractional_digits[of "constructor calm" 10000] reachable.fresh[OF unit_calm]
  by simp

text \<open>
  C8. The claim: for every \<open>value \<ge> 0\<close> and every base in \<open>2..65536\<close>,
  \<open>baseToNumber(numberToBase(value, base), base) = value\<close>. The code keeps it for every
  positive value, and for zero in a base up to \<open>36\<close> (lemma \<open>numberToBase_roundtrip\<close>). It
  breaks it for zero in a base above \<open>36\<close>: \<open>numberToBase\<close> returns the text \<open>"0"\<close> before it
  looks at the base, and above \<open>36\<close> \<open>baseToNumber\<close> reads a character as its code, so the
  way back yields \<open>48\<close>.
\<close>

theorem zero_roundtrip_above_36:
  "numberToBase 0 64 = Inr [0x30] \<and> baseToNumber [0x30] 64 = Inr 48"
  by (simp add: numberToBase_def baseToNumber_def char_value_def charCode_def)

text \<open>
  C9. The scan of \<open>findOptimalSequence\<close> tries exactly the offsets \<open>s\<close> with
  \<open>s + len(target) < streamLength\<close>. So a reported match lies strictly before the end of
  the stream, a target that occurs strictly before the end is found, and a target all of
  whose occurrences end exactly at the last digit (among them a target as long as the
  stream) is reported as not found.
\<close>

theorem search_stops_short_of_the_end:
  assumes "getConstantInBase c b 10000 st = (Inr ds, st')"
  shows "(\<forall>r st''. findOptimalSequence m c b st = (Inr r, st'') \<and> found r \<longrightarrow>
            start r + length m < length ds \<and> occurs_at ds (messageToNumbers m) (start r)) \<and>
         ((\<exists>s. s + length m < length ds \<and> occurs_at ds (messageToNumbers m) s) \<longrightarrow>
            (\<exists>r. findOptimalSequence m c b st = (Inr r, st') \<and> found r)) \<and>
         ((\<forall>s. occurs_at ds (messageToNumbers m) s \<longrightarrow> length ds \<le> s + length m) \<longrightarrow>
            findOptimalSequence m c b st =
              (Inr \<lparr>constant = c, base = b, start = 0, length' = length m * 2, found = False\<rparr>,
               st'))"
proof -
  let ?mn = "messageToNumbers m"
  have first: "start r + length m < length ds \<and> occurs_at ds ?mn (start r)"
    if "findOptimalSequence m c b st = (Inr r, st'')" and "found r" for r st''
  proof (cases "search_from ds ?mn 0")
    case None
    then show ?thesis using that assms by (auto simp: findOptimalSequence_def)
  next
    case (Some s)
    then have "start r = s" using that assms by (auto simp: findOptimalSequence_def)
    then show ?thesis using search_from_occurs[OF Some] by simp
  qed
  have second: "\<exists>r. findOptimalSequence m c b st = (Inr r, st') \<and> found r"
    if "\<exists>s. s + length m < length ds \<and> occurs_at ds ?mn s"
  proof (cases "search_from ds ?mn 0")
    case None
    from that obtain s where s: "s + length m < length ds" "occurs_at ds ?mn s" by blast
    then have "s + length ?mn \<le> length ds" by simp
    from match_from_occurs[OF this messageToNumbers_no_NaN] s(2)
    have "match_from ds ?mn s 0" by simp
    moreover have "int s < int (length ds) - int (length ?mn)" using s(1) by simp
    ultimately have False using None by (simp add: search_from_None_iff)
    then show ?thesis ..
  next
    case (Some s)
    then show ?thesis using assms by (simp add: findOptimalSequence_def)
  qed
  have third: "findOptimalSequence m c b st =
              (Inr \<lparr>constant = c, base = b, start = 0, length' = length m * 2, found = False\<rparr>, st')"
    if h: "\<forall>s. occurs_at ds ?mn s \<longrightarrow> length ds \<le> s + length m"
  proof (cases "search_from ds ?mn 0")
    case None
    then show ?thesis using assms by (simp add: findOptimalSequence_def)
  next
    case (Some s)
    from search_from_occurs[OF Some] h have False by fastforce
    then show ?thesis ..
  qed
  show ?thesis using first second third by blast
qed

theorem search_stops_short_of_the_end_witness:
  "\<exists>ds st'. getConstantInBase ''pi'' 16 10000 (constructor calm) = (Inr ds, st') \<and>
     length ds = 10000 \<and>
     occurs_at ds (messageToNumbers (numbersToMessage ds)) 0 \<and>
     findOptimalSequence (numbersToMessage ds) ''pi'' 16 (constructor calm) =
       (Inr \<lparr>constant = ''pi'', base = 16, start = 0, length' = 20000, found = False\<rparr>, st')"
proof -
  let ?ds = "seed_of ''pi'' @ filler calm 0 9899"
  have "fst (getConstantInBase ''pi'' 16 10000 (constructor calm)) = Inr ?ds"
    by (simp add: getConstantInBase_miss[OF cache_constructor known_pi] fields_constructor)
  then obtain st' where g: "getConstantInBase ''pi'' 16 10000 (constructor calm) = (Inr ?ds, st')"
    by (cases "getConstantInBase ''pi'' 16 10000 (constructor calm)") simp
  have len: "length ?ds = 10000" by (simp add: length_seed_of[OF known_pi])
  have dec: "list_all decimal ?ds"
    using decimal_seed_of[OF known_pi] decimal_filler[OF unit_calm] by simp
  have rt: "messageToNumbers (numbersToMessage ?ds) = ?ds"
    by (rule messageToNumbers_numbersToMessage[OF dec])
  have lm: "length (numbersToMessage ?ds) = 10000"
    using len by (simp add: numbersToMessage_def)
  have occ: "occurs_at ?ds (messageToNumbers (numbersToMessage ?ds)) 0"
    unfolding rt by (simp add: occurs_at_def)
  have ends: "\<forall>s. occurs_at ?ds (messageToNumbers (numbersToMessage ?ds)) s \<longrightarrow>
                length ?ds \<le> s + length (numbersToMessage ?ds)"
    using len lm by simp
  from search_stops_short_of_the_end[OF g, of "numbersToMessage ?ds"] ends lm
  have "findOptimalSequence (numbersToMessage ?ds) ''pi'' 16 (constructor calm) =
       (Inr \<lparr>constant = ''pi'', base = 16, start = 0, length' = 20000, found = False\<rparr>, st')"
    by simp
  then show ?thesis using g len occ by blast
qed

text \<open>
  C10. \<open>encode\<close> fails with \<open>EmptyMessage\<close> (the error "Message cannot be empty") whenever
  the message has length zero, in every state of the instance, and leaves the state as
  it was; in particular \<open>encode("")\<close> fails so.
\<close>

theorem encode_empty_message:
  "length message = 0 \<Longrightarrow> encode message st = (Inl EmptyMessage, st)"
  by (simp add: encode_def)

theorem encode_empty_message_witness:
  "length ([] :: jsstring) = 0 \<and>
   encode [] (constructor calm) = (Inl EmptyMessage, constructor calm)"
  using encode_empty_message[of "[]" "constructor calm"] by simp

end
